theory Spec2Isabelle
  imports Main "HOL-Library.Word"
begin

unbundle bit_operations_syntax

section \<open>Bytes, buffers and faults\<close>

text \<open>
  \<^verbatim>\<open>typedef unsigned char byte;\<close> (seal.hpp). A buffer is the list of the bytes that are
  really there; a pointer into a buffer is the rest of the list from that place on. C has
  no checked indexing: a read at an index where no byte is, is kept in the model as the
  fault \<open>OutOfBounds\<close>, so that every function that reads says whether it stayed inside.
\<close>

type_synonym byte = char

datatype error = OutOfBounds | NullPointer

definition rd :: "byte list \<Rightarrow> nat \<Rightarrow> error + byte" where
  "rd buf k = (if k < length buf then Inr (buf ! k) else Inl OutOfBounds)"

text \<open>\<^verbatim>\<open>memcmp(buf + k, lit, n) == 0\<close> for an \<open>n\<close>-byte literal \<open>lit\<close>: reads \<open>n\<close> bytes at \<open>k\<close>.\<close>

definition memcmp_eq :: "byte list \<Rightarrow> nat \<Rightarrow> byte list \<Rightarrow> error + bool" where
  "memcmp_eq buf k lit =
     (if k + length lit \<le> length buf then Inr (take (length lit) (drop k buf) = lit)
      else Inl OutOfBounds)"

section \<open>The field store (seal.hpp)\<close>

text \<open>
  \<^verbatim>\<open>struct sealfield { char Type; char *Field; byte *Value; size_t FieldLen; size_t ValueLen;
  struct sealfield *Next; }\<close>. A node keeps its name and its value; the two lengths are the
  lengths of the lists, and a store is the list of its nodes in the order of \<open>Next\<close> (\<open>NULL\<close>
  is the empty list).
\<close>

record sealfield =
  Type :: char
  Field :: string
  Value :: "byte list"

type_synonym sealstore = "sealfield list"

text \<open>
  Modelled from the spec: the store operations of seal.cpp, which is not among the sources
  (only their declarations in seal.hpp are). A name is a unique key, setting a name again
  overwrites in place, insertion order is kept, and an operation on an absent field gives
  the absent result.
\<close>

definition SealSearch :: "sealstore \<Rightarrow> string \<Rightarrow> sealfield option" where
  "SealSearch vf name = find (\<lambda>f. Field f = name) vf"

definition SealDel :: "sealstore \<Rightarrow> string \<Rightarrow> sealstore" where
  "SealDel vf name = filter (\<lambda>f. Field f \<noteq> name) vf"

fun SealSet :: "sealstore \<Rightarrow> char \<Rightarrow> string \<Rightarrow> byte list \<Rightarrow> sealstore" where
  "SealSet [] t name v = [\<lparr>Type = t, Field = name, Value = v\<rparr>]"
| "SealSet (f # fs) t name v =
     (if Field f = name then \<lparr>Type = t, Field = name, Value = v\<rparr> # fs
      else f # SealSet fs t name v)"

text \<open>Modelled from the spec: \<open>SealAlloc\<close> gives the field \<open>Len\<close> cleared bytes.\<close>

definition SealAlloc :: "sealstore \<Rightarrow> string \<Rightarrow> nat \<Rightarrow> char \<Rightarrow> sealstore" where
  "SealAlloc vfhead name Len t = SealSet vfhead t name (replicate Len (CHR 0x00))"

section \<open>The mapped file\<close>

text \<open>
  Modelled from the spec: \<open>mmapfile\<close> is declared in files.hpp, which is not among the
  sources. It is a read-only view of the whole file: \<open>mem\<close> are its bytes and \<open>memsize\<close> is
  their number.
\<close>

record mmapfile =
  mem :: "byte list"

definition memsize :: "mmapfile \<Rightarrow> nat" where
  "memsize Mmap = length (mem Mmap)"

section \<open>The EBML variable-length integers (Matroska handler)\<close>

text \<open>
  \<open>_MaReadData\<close> returns a \<open>size_t\<close>, here a 64-bit word, and moves \<open>Offset[0]\<close>; the model
  returns both. \<open>(size_t)(-1)\<close> is the word \<open>- 1\<close>.

  The scan \<^verbatim>\<open>for(b=0; (b < 8) && !(Dat & (1<<(7-b))); b++) ;\<close> looks for the first bit that
  is set, from the top.
\<close>

function MaReadData_scan :: "byte \<Rightarrow> nat \<Rightarrow> nat" where
  "MaReadData_scan Dat b =
     (if b < 8 \<and> (of_char Dat :: int) AND push_bit (7 - b) 1 = 0
      then MaReadData_scan Dat (b + 1) else b)"
  by pat_completeness auto
termination
  by (relation "measure (\<lambda>(Dat, b). 8 - b)") auto

declare MaReadData_scan.simps [simp del]

text \<open>
  \<^verbatim>\<open>while((b >= 0) && (Offset[0] < Mmap->memsize))
     { Val <<= 8; Val |= Mmap->mem[Offset[0]]; b--; Offset[0]++; }\<close>
\<close>

function MaReadData_loop :: "mmapfile \<Rightarrow> int \<Rightarrow> 64 word \<Rightarrow> nat \<Rightarrow> error + (64 word \<times> nat)" where
  "MaReadData_loop Mmap b Val Offset =
     (if 0 \<le> b \<and> Offset < memsize Mmap
      then (case rd (mem Mmap) Offset of
              Inl e \<Rightarrow> Inl e
            | Inr x \<Rightarrow> MaReadData_loop Mmap (b - 1) (push_bit 8 Val OR of_char x) (Offset + 1))
      else Inr (Val, Offset))"
  by pat_completeness auto
termination
  by (relation "measure (\<lambda>(Mmap, b, Val, Offset). nat (b + 1))") auto

declare MaReadData_loop.simps [simp del]

definition MaReadData :: "mmapfile \<Rightarrow> nat \<Rightarrow> error + (64 word \<times> nat)" where
  "MaReadData Mmap Offset =
     (if memsize Mmap \<le> Offset then Inr (- 1, Offset)
      else case rd (mem Mmap) Offset of
             Inl e \<Rightarrow> Inl e
           | Inr Dat \<Rightarrow>
               if Dat = CHR 0x00 then Inr (- 1, Offset)
               else let b = MaReadData_scan Dat 0;
                        Val = word_of_int ((of_char Dat :: int) AND NOT (push_bit (7 - b) 0xff))
                    in MaReadData_loop Mmap (int b - 1) Val (Offset + 1))"

text \<open>
  \<open>_MaWriteData\<close>: the count of bytes,
  \<^verbatim>\<open>while((num_bytes < 8) && (Value >= MaxValue)) { MaxValue = (MaxValue<<7) | 0xff; num_bytes++; }\<close>
\<close>

function MaWriteData_count :: "nat \<Rightarrow> 64 word \<Rightarrow> 64 word \<Rightarrow> nat" where
  "MaWriteData_count num_bytes MaxValue Val =
     (if num_bytes < 8 \<and> MaxValue \<le> Val
      then MaWriteData_count (num_bytes + 1) (push_bit 7 MaxValue OR 0xff) Val
      else num_bytes)"
  by pat_completeness auto
termination
  by (relation "measure (\<lambda>(num_bytes, MaxValue, Val). 8 - num_bytes)") auto

declare MaWriteData_count.simps [simp del]

text \<open>
  \<^verbatim>\<open>for(i=1; i < num_bytes; i++)
     { v->Value[num_bytes - i] = Value & 0xFF; Value >>= 8; mask >>= 1; }\<close>
  on the bytes of the field, with the value and the mask that are left.
\<close>

function MaWriteData_fill ::
  "nat \<Rightarrow> nat \<Rightarrow> byte list \<Rightarrow> 64 word \<Rightarrow> int \<Rightarrow> byte list \<times> 64 word \<times> int" where
  "MaWriteData_fill num_bytes i buf Val mask_i =
     (if i < num_bytes
      then MaWriteData_fill num_bytes (i + 1)
             (buf[num_bytes - i := char_of (unat (Val AND 0xFF))]) (drop_bit 8 Val) (drop_bit 1 mask_i)
      else (buf, Val, mask_i))"
  by pat_completeness auto
termination
  by (relation "measure (\<lambda>(num_bytes, i, buf, Val, mask_i). num_bytes - i)") auto

declare MaWriteData_fill.simps [simp del]

text \<open>The bytes that \<open>_MaWriteData\<close> leaves in the field, from its cleared allocation.\<close>

definition MaWriteData_bytes :: "64 word \<Rightarrow> byte list" where
  "MaWriteData_bytes Val =
     (let num_bytes = MaWriteData_count 1 127 Val;
          buf0 = (replicate num_bytes (CHR 0x00))[0 := char_of (push_bit (8 - num_bytes) 1 :: nat)];
          (buf, Val', mask_i) = MaWriteData_fill num_bytes 1 buf0 Val 0xff
      in buf[0 := char_of ((of_char (buf ! 0) :: nat) OR unat (Val' AND 0xFF AND word_of_int mask_i))])"

definition MaWriteData :: "sealstore \<Rightarrow> string \<Rightarrow> 64 word \<Rightarrow> sealstore" where
  "MaWriteData Rec name Val =
     SealSet (SealAlloc Rec name (MaWriteData_count 1 127 Val) (CHR ''x'')) (CHR ''x'') name
       (MaWriteData_bytes Val)"

section \<open>Faults as values\<close>

text \<open>
  A step of a model either faults or gives a value; \<open>bindE\<close> passes the fault on, as the
  undefined behaviour of the C code would end the run.
\<close>

definition bindE :: "error + 'a \<Rightarrow> ('a \<Rightarrow> error + 'b) \<Rightarrow> error + 'b" where
  "bindE m f = (case m of Inl e \<Rightarrow> Inl e | Inr x \<Rightarrow> f x)"

text \<open>A write \<^verbatim>\<open>buf[k] = c\<close> and a read of \<open>n\<close> bytes at \<open>buf + k\<close>.\<close>

definition wr :: "byte list \<Rightarrow> nat \<Rightarrow> byte \<Rightarrow> error + byte list" where
  "wr buf k c = (if k < length buf then Inr (buf[k := c]) else Inl OutOfBounds)"

definition memrd :: "byte list \<Rightarrow> nat \<Rightarrow> nat \<Rightarrow> error + byte list" where
  "memrd buf k n = (if k + n \<le> length buf then Inr (take n (drop k buf)) else Inl OutOfBounds)"

text \<open>
  \<open>size_t\<close> and \<open>uint32_t\<close> arithmetic that can wrap in the code: the decrement of an
  index that may be 0, and the 32-bit field and value offsets of \<open>SealParse\<close>.
\<close>

definition size_dec :: "nat \<Rightarrow> nat" where
  "size_dec k = (k + 2 ^ 64 - 1) mod 2 ^ 64"

definition u32 :: "nat \<Rightarrow> nat" where
  "u32 k = k mod 2 ^ 32"

definition u32_sub :: "nat \<Rightarrow> nat \<Rightarrow> nat" where
  "u32_sub a b = (a + 2 ^ 32 - b mod 2 ^ 32) mod 2 ^ 32"

section \<open>The C library, in the C locale\<close>

definition isdigit :: "byte \<Rightarrow> bool" where
  "isdigit c = (c \<in> set ''0123456789'')"

definition isupper :: "byte \<Rightarrow> bool" where
  "isupper c = (c \<in> set ''ABCDEFGHIJKLMNOPQRSTUVWXYZ'')"

definition islower :: "byte \<Rightarrow> bool" where
  "islower c = (c \<in> set ''abcdefghijklmnopqrstuvwxyz'')"

definition isalpha :: "byte \<Rightarrow> bool" where
  "isalpha c = (isupper c \<or> islower c)"

definition isalnum :: "byte \<Rightarrow> bool" where
  "isalnum c = (isalpha c \<or> isdigit c)"

definition isxdigit :: "byte \<Rightarrow> bool" where
  "isxdigit c = (isdigit c \<or> c \<in> set ''abcdefABCDEF'')"

definition isspace :: "byte \<Rightarrow> bool" where
  "isspace c = (c \<in> set [CHR 0x20, CHR 0x09, CHR 0x0A, CHR 0x0B, CHR 0x0C, CHR 0x0D])"

text \<open>
  \<^verbatim>\<open>strchr(s, c) != NULL\<close>: the terminating NUL of \<open>s\<close> counts as one of its characters, so
  the byte 0 is always found.
\<close>

definition strchr :: "byte list \<Rightarrow> byte \<Rightarrow> bool" where
  "strchr s c = (c \<in> set s \<or> c = CHR 0x00)"

section \<open>More of the field store\<close>

text \<open>
  Modelled from the spec: the text and index accessors of seal.cpp, which is not among the
  sources. A text value is set from the bytes read at the pointer; \<open>SealGetText\<close> gives the
  value as the C string that starts there. An indexed pseudo-array of \<open>size_t\<close> is one
  contiguous value of 8 bytes per element (low byte first), which grows, filled with
  zeros, when a higher index is set; reading an absent element gives 0. \<open>SealCopy2\<close> copies
  a field of one store into another under a new name and does nothing when the field is
  absent.
\<close>

definition SealSetTextLen :: "sealstore \<Rightarrow> string \<Rightarrow> byte list \<Rightarrow> sealstore" where
  "SealSetTextLen vfhead name v = SealSet vfhead (CHR ''c'') name v"

definition SealGetText :: "sealstore \<Rightarrow> string \<Rightarrow> string option" where
  "SealGetText vfhead name =
     (case SealSearch vfhead name of
        None \<Rightarrow> None
      | Some f \<Rightarrow> Some (takeWhile (\<lambda>c. c \<noteq> CHR 0x00) (Value f)))"

definition size_t_bytes :: "nat \<Rightarrow> byte list" where
  "size_t_bytes v =
     [char_of v, char_of (v div 2 ^ 8), char_of (v div 2 ^ 16), char_of (v div 2 ^ 24),
      char_of (v div 2 ^ 32), char_of (v div 2 ^ 40), char_of (v div 2 ^ 48), char_of (v div 2 ^ 56)]"

definition bytes_size_t :: "byte list \<Rightarrow> nat" where
  "bytes_size_t bs = foldr (\<lambda>b a. of_char b + 256 * a) bs 0"

definition SealSetIindex :: "sealstore \<Rightarrow> string \<Rightarrow> nat \<Rightarrow> nat \<Rightarrow> sealstore" where
  "SealSetIindex vfhead name Index v =
     (let old = (case SealSearch vfhead name of None \<Rightarrow> [] | Some f \<Rightarrow> Value f);
          grown = old @ replicate (8 * (Index + 1) - length old) (CHR 0x00)
      in SealSet vfhead (CHR ''I'') name
           (take (8 * Index) grown @ size_t_bytes v @ drop (8 * Index + 8) grown))"

definition SealGetIindex :: "sealstore \<Rightarrow> string \<Rightarrow> nat \<Rightarrow> nat" where
  "SealGetIindex vfhead name Index =
     (case SealSearch vfhead name of
        None \<Rightarrow> 0
      | Some f \<Rightarrow>
          if 8 * Index + 8 \<le> length (Value f)
          then bytes_size_t (take 8 (drop (8 * Index) (Value f))) else 0)"

definition SealCopy2 :: "sealstore \<Rightarrow> string \<Rightarrow> sealstore \<Rightarrow> string \<Rightarrow> sealstore" where
  "SealCopy2 vfhead2 name2 vfhead1 name1 =
     (case SealSearch vfhead1 name1 of
        None \<Rightarrow> vfhead2
      | Some f \<Rightarrow> SealSet vfhead2 (Type f) name2 (Value f))"

text \<open>
  The codecs change a node through the pointer that \<open>SealSearch\<close> gave: \<open>SealPut\<close> is the
  store with that node as it is afterwards.
\<close>

definition SealPut :: "sealstore \<Rightarrow> sealfield option \<Rightarrow> sealstore" where
  "SealPut vfhead Data =
     (case Data of None \<Rightarrow> vfhead | Some d \<Rightarrow> SealSet vfhead (Type d) (Field d) (Value d))"

section \<open>The escape codec (seal-parse.cpp)\<close>

text \<open>
  \<open>SealStrDecode\<close>, in place on the value:
  \<^verbatim>\<open>for(i=j=0; i < Data->ValueLen; i++,j++)
     { if (Data->Value[i]=='\\') { i++; }
       if (i!=j) { Data->Value[j]=Data->Value[i]; } }\<close>
  and then \<^verbatim>\<open>Data->ValueLen = j\<close> (the bytes from \<open>j\<close> on are cleared and no longer part of
  the value).
\<close>

function SealStrDecode_loop ::
  "nat \<Rightarrow> byte list \<Rightarrow> nat \<Rightarrow> nat \<Rightarrow> error + (byte list \<times> nat \<times> nat)" where
  "SealStrDecode_loop ValueLen v i j =
     (if i < ValueLen
      then (case rd v i of
              Inl e \<Rightarrow> Inl e
            | Inr c \<Rightarrow>
                let i1 = (if c = CHR 0x5C then i + 1 else i) in
                if i1 \<noteq> j
                then (case rd v i1 of
                        Inl e \<Rightarrow> Inl e
                      | Inr c1 \<Rightarrow>
                          (case wr v j c1 of
                             Inl e \<Rightarrow> Inl e
                           | Inr v1 \<Rightarrow> SealStrDecode_loop ValueLen v1 (i1 + 1) (j + 1)))
                else SealStrDecode_loop ValueLen v (i1 + 1) (j + 1))
      else Inr (v, i, j))"
  by pat_completeness auto
termination
  by (relation "measure (\<lambda>(ValueLen, v, i, j). ValueLen - i)") auto

declare SealStrDecode_loop.simps [simp del]

definition SealStrDecode :: "sealfield option \<Rightarrow> error + sealfield option" where
  "SealStrDecode Data =
     (case Data of
        None \<Rightarrow> Inr None
      | Some d \<Rightarrow>
          if length (Value d) = 0 then Inr (Some d)
          else case SealStrDecode_loop (length (Value d)) (Value d) 0 0 of
                 Inl e \<Rightarrow> Inl e
               | Inr (v, i, j) \<Rightarrow> Inr (Some (d\<lparr>Value := take j v\<rparr>)))"

text \<open>
  \<open>SealStrEncode\<close>: the count of the new length,
  \<^verbatim>\<open>for(i=j=0; i < Data->ValueLen; i++,j++) { if (strchr("'\"",Data->Value[i])) { j++; } }\<close>
\<close>

function SealStrEncode_count :: "nat \<Rightarrow> byte list \<Rightarrow> nat \<Rightarrow> nat \<Rightarrow> error + (nat \<times> nat)" where
  "SealStrEncode_count ValueLen v i j =
     (if i < ValueLen
      then (case rd v i of
              Inl e \<Rightarrow> Inl e
            | Inr c \<Rightarrow>
                SealStrEncode_count ValueLen v (i + 1)
                  ((if strchr [CHR 0x27, CHR 0x22] c then j + 1 else j) + 1))
      else Inr (i, j))"
  by pat_completeness auto
termination
  by (relation "measure (\<lambda>(ValueLen, v, i, j). ValueLen - i)") auto

declare SealStrEncode_count.simps [simp del]

text \<open>
  The copy from the right, in the grown and cleared buffer; \<open>i\<close> and \<open>j\<close> are \<open>size_t\<close>, so
  \<open>i >= 0\<close> always holds and the loop ends when \<open>j > i\<close> fails:
  \<^verbatim>\<open>while((i >= 0) && (j > i))
     { Data->Value[j] = Data->Value[i];
       if (strchr("'\"",Data->Value[i])) { j--; Data->Value[j]='\\'; }
       j--; i--; }\<close>
\<close>

lemma size_dec_bound: "size_dec k < 2 ^ 64"
  by (simp add: size_dec_def)

lemma size_dec_less: "0 < k \<Longrightarrow> size_dec k < k"
proof (cases "k < 2 ^ 64")
  case True
  assume "0 < k"
  then have "k + 2 ^ 64 - 1 = (k - 1) + 1 * 2 ^ 64" by simp
  then have "size_dec k = (k - 1) mod 2 ^ 64"
    unfolding size_dec_def by (simp only: mod_mult_self1)
  then show ?thesis using True \<open>0 < k\<close> by simp
next
  case False
  then show ?thesis using size_dec_bound[of k] by simp
qed

function SealStrEncode_copy :: "byte list \<Rightarrow> nat \<Rightarrow> nat \<Rightarrow> error + byte list" where
  "SealStrEncode_copy v i j =
     (if i < j
      then (case rd v i of
              Inl e \<Rightarrow> Inl e
            | Inr c \<Rightarrow>
                (case wr v j c of
                   Inl e \<Rightarrow> Inl e
                 | Inr v1 \<Rightarrow>
                     if strchr [CHR 0x27, CHR 0x22] c
                     then (case wr v1 (size_dec j) (CHR 0x5C) of
                             Inl e \<Rightarrow> Inl e
                           | Inr v2 \<Rightarrow> SealStrEncode_copy v2 (size_dec i) (size_dec (size_dec j)))
                     else SealStrEncode_copy v1 (size_dec i) (size_dec j)))
      else Inr v)"
  by pat_completeness auto
termination
proof (relation "measure (\<lambda>(v, i, j). if i < j then i + 1 else 0)")
  show "wf (measure (\<lambda>(v, i, j). if i < j then i + 1 else 0))" by simp
next
  fix v :: "byte list" and i j :: nat and c v1 v2
  assume "i < j"
  have d: "size_dec i < i \<or> (i = 0 \<and> size_dec i = 2 ^ 64 - 1)"
    using size_dec_less[of i] by (cases "i = 0") (simp_all add: size_dec_def)
  have b: "size_dec k \<le> 2 ^ 64 - 1" for k
    using size_dec_bound[of k] by simp
  show "((v2, size_dec i, size_dec (size_dec j)), v, i, j)
          \<in> measure (\<lambda>(v, i, j). if i < j then i + 1 else 0)"
    using d b[of "size_dec j"] \<open>i < j\<close> by auto
  show "((v1, size_dec i, size_dec j), v, i, j)
          \<in> measure (\<lambda>(v, i, j). if i < j then i + 1 else 0)"
    using d b[of j] \<open>i < j\<close> by auto
qed

declare SealStrEncode_copy.simps [simp del]

text \<open>
  \<^verbatim>\<open>if (j > i) { Data->ValueLen=j; Data->Value = realloc(...); memset(Data->Value+i,0,j-i+4);
     i--; j--; ... }\<close>: the value grows to \<open>j\<close> bytes, the new ones cleared.
\<close>

definition SealStrEncode :: "sealfield option \<Rightarrow> error + sealfield option" where
  "SealStrEncode Data =
     (case Data of
        None \<Rightarrow> Inr None
      | Some d \<Rightarrow>
          if length (Value d) = 0 then Inr (Some d)
          else case SealStrEncode_count (length (Value d)) (Value d) 0 0 of
                 Inl e \<Rightarrow> Inl e
               | Inr (i, j) \<Rightarrow>
                   if i < j
                   then (case SealStrEncode_copy (Value d @ replicate (j - i) (CHR 0x00))
                               (size_dec i) (size_dec j) of
                           Inl e \<Rightarrow> Inl e
                         | Inr v \<Rightarrow> Inr (Some (d\<lparr>Value := v\<rparr>)))
                   else Inr (Some d))"

section \<open>The XML entity decoder (seal-parse.cpp)\<close>

text \<open>
  The table \<open>entities[]\<close>: the length that is compared, the bytes of the code and the
  character. \<^verbatim>\<open>{ 5, "&lt;", '<' }\<close> and \<^verbatim>\<open>{ 5, "&gt;", '>' }\<close> give the length 5 to literals of four
  characters, so \<open>memcmp\<close> also compares the literal's terminating NUL.
\<close>

definition entities :: "(nat \<times> byte list \<times> byte) list" where
  "entities =
     [(5, ''&lt;'' @ [CHR 0x00], CHR ''<''),
      (5, ''&gt;'' @ [CHR 0x00], CHR ''>''),
      (6, ''&quot;'', CHR 0x22),
      (6, ''&apos;'', CHR 0x27),
      (5, ''&amp;'', CHR ''&'')]"

text \<open>
  \<open>n\<close> is an \<open>int\<close>: a 32-bit word, compared as a signed number (its overflow is undefined
  in C; the model wraps). The digits of a hex code,
  \<^verbatim>\<open>for( ; (i < Data->ValueLen) && isxdigit(Data->Value[i]); i++)
     { n *= 16;
       if (isdigit(Data->Value[i])) { n += Data->Value[i]-'0'; }
       else if (isupper(Data->Value[i])) { n += Data->Value[i]-'A'+10; }
       else { n += Data->Value[i]-'a'+10; } }\<close>
  and of a decimal code.
\<close>

function SealXmlDecode_hex :: "nat \<Rightarrow> byte list \<Rightarrow> nat \<Rightarrow> 32 word \<Rightarrow> error + (nat \<times> 32 word)" where
  "SealXmlDecode_hex ValueLen v i n =
     (if i < ValueLen
      then (case rd v i of
              Inl e \<Rightarrow> Inl e
            | Inr c \<Rightarrow>
                if isxdigit c
                then SealXmlDecode_hex ValueLen v (i + 1)
                       (n * 16 +
                        (if isdigit c then of_char c - of_char (CHR ''0'')
                         else if isupper c then of_char c - of_char (CHR ''A'') + 10
                         else of_char c - of_char (CHR ''a'') + 10))
                else Inr (i, n))
      else Inr (i, n))"
  by pat_completeness auto
termination
  by (relation "measure (\<lambda>(ValueLen, v, i, n). ValueLen - i)") auto

declare SealXmlDecode_hex.simps [simp del]

function SealXmlDecode_dec :: "nat \<Rightarrow> byte list \<Rightarrow> nat \<Rightarrow> 32 word \<Rightarrow> error + (nat \<times> 32 word)" where
  "SealXmlDecode_dec ValueLen v i n =
     (if i < ValueLen
      then (case rd v i of
              Inl e \<Rightarrow> Inl e
            | Inr c \<Rightarrow>
                if isdigit c
                then SealXmlDecode_dec ValueLen v (i + 1) (n * 10 + (of_char c - of_char (CHR ''0'')))
                else Inr (i, n))
      else Inr (i, n))"
  by pat_completeness auto
termination
  by (relation "measure (\<lambda>(ValueLen, v, i, n). ValueLen - i)") auto

declare SealXmlDecode_dec.simps [simp del]

text \<open>
  The bytes of \<open>n\<close> written at \<open>j\<close>, each write followed by \<open>j++\<close>:
  \<^verbatim>\<open>if (n > 0xffffff) { Data->Value[j]=(n >> 24)&0xff; j++; ... Data->Value[j]=n & 0xff; j++; }
  else if (n > 0xffff) { ... } else if (n > 0xff) { ... }
  else if (n > 0) { Data->Value[j]=n & 0xff; j++; }\<close>
\<close>

fun wr_bytes :: "byte list \<Rightarrow> nat \<Rightarrow> byte list \<Rightarrow> error + (byte list \<times> nat)" where
  "wr_bytes v j [] = Inr (v, j)"
| "wr_bytes v j (c # cs) =
     (case wr v j c of Inl e \<Rightarrow> Inl e | Inr v1 \<Rightarrow> wr_bytes v1 (j + 1) cs)"

definition byte_of :: "32 word \<Rightarrow> nat \<Rightarrow> byte" where
  "byte_of n k = char_of (unat (drop_bit k n AND 0xff))"

definition SealXmlDecode_emit :: "byte list \<Rightarrow> nat \<Rightarrow> 32 word \<Rightarrow> error + (byte list \<times> nat)" where
  "SealXmlDecode_emit v j n =
     (if 0xffffff < sint n then wr_bytes v j [byte_of n 24, byte_of n 16, byte_of n 8, byte_of n 0]
      else if 0xffff < sint n then wr_bytes v j [byte_of n 16, byte_of n 8, byte_of n 0]
      else if 0xff < sint n then wr_bytes v j [byte_of n 8, byte_of n 0]
      else if 0 < sint n then wr_bytes v j [byte_of n 0]
      else Inr (v, j))"

text \<open>
  The named entities:
  \<^verbatim>\<open>for(e=0; entities[e].len > 0; e++)
     if ((i+entities[e].len <= Data->ValueLen) &&
         !memcmp(Data->Value+i,entities[e].code,entities[e].len)) { ...; break; }\<close>
  gives the first entry that matches at \<open>i\<close>.
\<close>

fun SealXmlDecode_entity ::
  "nat \<Rightarrow> byte list \<Rightarrow> nat \<Rightarrow> (nat \<times> byte list \<times> byte) list \<Rightarrow> error + (nat \<times> byte) option" where
  "SealXmlDecode_entity ValueLen v i [] = Inr None"
| "SealXmlDecode_entity ValueLen v i ((len, code, c) # es) =
     (if i + len \<le> ValueLen
      then (case memcmp_eq v i code of
              Inl e \<Rightarrow> Inl e
            | Inr m \<Rightarrow> if m then Inr (Some (len, c)) else SealXmlDecode_entity ValueLen v i es)
      else SealXmlDecode_entity ValueLen v i es)"

text \<open>
  One round of \<^verbatim>\<open>for(i=j=0; i < Data->ValueLen; i++,j++)\<close>, without the final \<open>i++,j++\<close>:
  the value, \<open>i\<close> and \<open>j\<close> as the body leaves them.
\<close>

definition SealXmlDecode_body ::
  "nat \<Rightarrow> byte list \<Rightarrow> nat \<Rightarrow> nat \<Rightarrow> error + (byte list \<times> nat \<times> nat)" where
  "SealXmlDecode_body ValueLen v i j =
     bindE (if i \<noteq> j then bindE (rd v i) (wr v j) else Inr v) (\<lambda>v1.
     bindE (if i + 5 \<le> ValueLen then memcmp_eq v1 i ''&#x'' else Inr False) (\<lambda>ishex.
       if ishex
       then bindE (SealXmlDecode_hex ValueLen v1 (i + 3) 0) (\<lambda>(i2, n).
            bindE (SealXmlDecode_emit v1 j n) (\<lambda>(v2, j2). Inr (v2, i2 + 1, j2)))
       else
     bindE (if i + 4 \<le> ValueLen then memcmp_eq v1 i ''&#'' else Inr False) (\<lambda>isdec.
       if isdec
       then bindE (SealXmlDecode_dec ValueLen v1 (i + 2) 0) (\<lambda>(i2, n).
            bindE (SealXmlDecode_emit v1 j n) (\<lambda>(v2, j2). Inr (v2, i2 + 1, j2)))
       else
     bindE (SealXmlDecode_entity ValueLen v1 i entities) (\<lambda>ent.
       case ent of
         None \<Rightarrow> Inr (v1, i, j)
       | Some (len, c) \<Rightarrow> bindE (wr v1 j c) (\<lambda>v2. Inr (v2, i + (len - 1), j))))))"

lemma SealXmlDecode_hex_ge: "SealXmlDecode_hex ValueLen v i n = Inr (i2, n2) \<Longrightarrow> i \<le> i2"
proof (induction ValueLen v i n rule: SealXmlDecode_hex.induct)
  case (1 ValueLen v i n)
  show ?case
    using "1.prems" "1.IH"
    by (subst (asm) SealXmlDecode_hex.simps) (fastforce split: if_splits sum.splits)
qed

lemma SealXmlDecode_dec_ge: "SealXmlDecode_dec ValueLen v i n = Inr (i2, n2) \<Longrightarrow> i \<le> i2"
proof (induction ValueLen v i n rule: SealXmlDecode_dec.induct)
  case (1 ValueLen v i n)
  show ?case
    using "1.prems" "1.IH"
    by (subst (asm) SealXmlDecode_dec.simps) (fastforce split: if_splits sum.splits)
qed

lemma SealXmlDecode_body_ge:
  "SealXmlDecode_body ValueLen v i j = Inr (v', i', j') \<Longrightarrow> i \<le> i'"
  by (auto simp add: SealXmlDecode_body_def bindE_def
        split: sum.splits if_splits option.splits prod.splits
        dest: SealXmlDecode_hex_ge SealXmlDecode_dec_ge)

function SealXmlDecode_loop ::
  "nat \<Rightarrow> byte list \<Rightarrow> nat \<Rightarrow> nat \<Rightarrow> error + (byte list \<times> nat \<times> nat)" where
  "SealXmlDecode_loop ValueLen v i j =
     (if i < ValueLen
      then (case SealXmlDecode_body ValueLen v i j of
              Inl e \<Rightarrow> Inl e
            | Inr (v', i', j') \<Rightarrow> SealXmlDecode_loop ValueLen v' (i' + 1) (j' + 1))
      else Inr (v, i, j))"
  by pat_completeness auto
termination
  by (relation "measure (\<lambda>(ValueLen, v, i, j). ValueLen - i)")
    (auto dest: SealXmlDecode_body_ge)

declare SealXmlDecode_loop.simps [simp del]

definition SealXmlDecode :: "sealfield option \<Rightarrow> error + sealfield option" where
  "SealXmlDecode Data =
     (case Data of
        None \<Rightarrow> Inr None
      | Some d \<Rightarrow>
          if length (Value d) = 0 then Inr (Some d)
          else case SealXmlDecode_loop (length (Value d)) (Value d) 0 0 of
                 Inl e \<Rightarrow> Inl e
               | Inr (v, i, j) \<Rightarrow> Inr (Some (d\<lparr>Value := take j v\<rparr>)))"

section \<open>The record parser \<open>SealParse\<close> (seal-parse.cpp)\<close>

text \<open>
  The local variables of \<open>SealParse\<close>. \<open>Rec\<close> is a store, \<open>NULL\<close> when empty; \<open>fs\<close>, \<open>fe\<close>, \<open>vs\<close>
  and \<open>ve\<close> are \<open>uint32_t\<close>.
\<close>

record parse_state =
  l_Rec :: sealstore
  l_State :: nat
  l_Quote :: byte
  l_i :: nat
  l_fs :: nat
  l_fe :: nat
  l_vs :: nat
  l_ve :: nat
  l_IsBad :: bool

text \<open>
  One round of \<^verbatim>\<open>for(i=0; i < TextLen; i++)\<close> ends in \<open>goto Done\<close>, or goes on to the next
  round. \<open>Next\<close> holds the state with \<open>i\<close> already incremented by the loop: a \<open>continue\<close> at
  \<open>i\<close> gives \<open>i + 1\<close>, and the \<open>i--\<close> that the code does before the end of a round gives \<open>i\<close>
  itself (also at 0, where the \<open>size_t\<close> wraps and comes back).
\<close>

datatype step = Next parse_state | Done parse_state

text \<open>
  State 0: looking for \<^verbatim>\<open><seal\<close> or \<^verbatim>\<open><xmp:seal\<close>.
  \<^verbatim>\<open>if ((i+6 < TextLen) && !memcmp(Text+i,"<seal",5) && strchr("> ",Text[i+5]))\<close>
\<close>

definition SealParse_start :: "nat \<Rightarrow> byte list \<Rightarrow> nat \<Rightarrow> byte list \<Rightarrow> error + bool" where
  "SealParse_start TextLen Text i tag =
     (if i + length tag + 1 < TextLen
      then bindE (memcmp_eq Text i tag) (\<lambda>m.
             if m then bindE (rd Text (i + length tag)) (\<lambda>c. Inr (strchr ''> '' c))
             else Inr False)
      else Inr False)"

definition SealParse_state0 :: "nat \<Rightarrow> byte list \<Rightarrow> parse_state \<Rightarrow> error + step" where
  "SealParse_state0 TextLen Text st =
     bindE (rd Text (l_i st)) (\<lambda>c.
       if c \<noteq> CHR ''<'' then Inr (Next (st\<lparr>l_i := l_i st + 1\<rparr>))
       else
     bindE (SealParse_start TextLen Text (l_i st) ''<seal'') (\<lambda>m1.
       if m1 then Inr (Next (st\<lparr>l_i := l_i st + 5 + 1, l_State := 1\<rparr>))
       else
     bindE (SealParse_start TextLen Text (l_i st) ''<xmp:seal'') (\<lambda>m2.
       if m2 then Inr (Next (st\<lparr>l_i := l_i st + 9 + 1, l_State := 1\<rparr>))
       else Inr (Next (st\<lparr>l_IsBad := True, l_i := l_i st + 1\<rparr>)))))"

text \<open>\<^verbatim>\<open>while((i < TextLen) && isalnum(Text[i])) { i++; }\<close>\<close>

function SealParse_alnum :: "nat \<Rightarrow> byte list \<Rightarrow> nat \<Rightarrow> error + nat" where
  "SealParse_alnum TextLen Text i =
     (if i < TextLen
      then (case rd Text i of
              Inl e \<Rightarrow> Inl e
            | Inr c \<Rightarrow> if isalnum c then SealParse_alnum TextLen Text (i + 1) else Inr i)
      else Inr i)"
  by pat_completeness auto
termination
  by (relation "measure (\<lambda>(TextLen, Text, i). TextLen - i)") auto

declare SealParse_alnum.simps [simp del]

text \<open>
  State 1: looking for an attribute, \<open>field=\<close>. After \<^verbatim>\<open>if (Text[i]=='<') { i--; IsBad=true; }\<close>
  the code reads \<open>Text[i]\<close> again; at \<open>i = 0\<close> the index has wrapped and the read is out of
  bounds. After the name the code reads \<open>Text[i]\<close> without a look at \<open>TextLen\<close>.
\<close>

definition SealParse_state1 :: "nat \<Rightarrow> byte list \<Rightarrow> parse_state \<Rightarrow> error + step" where
  "SealParse_state1 TextLen Text st =
     bindE (rd Text (l_i st)) (\<lambda>c.
       if isspace c then Inr (Next (st\<lparr>l_i := l_i st + 1\<rparr>))
       else if c = CHR ''>'' then Inr (Done st)
       else
     bindE (if l_i st + 1 < TextLen then memcmp_eq Text (l_i st) ''/>'' else Inr False) (\<lambda>m.
       if m then Inr (Done st)
       else
     bindE (if c = CHR ''<''
            then (if l_i st = 0 then Inl OutOfBounds else Inr (l_i st - 1, True))
            else Inr (l_i st, l_IsBad st)) (\<lambda>(i1, bad1).
     bindE (rd Text i1) (\<lambda>c1.
     bindE (SealParse_alnum TextLen Text i1) (\<lambda>i2.
     bindE (rd Text i2) (\<lambda>c2.
       let st1 = st\<lparr>l_IsBad := (if isalpha c1 then bad1 else True),
                    l_fs := u32 i1, l_fe := u32 i2\<rparr>
       in if c2 = CHR ''='' then Inr (Next (st1\<lparr>l_State := 2, l_i := i2 + 1\<rparr>))
          else Inr (Next (st1\<lparr>l_State := 0, l_i := i2\<rparr>))))))))"

text \<open>
  The scan for the end of a value; it gives \<open>i\<close> as it leaves the loop and, when the end
  was found (\<open>State=3\<close>), the offset \<open>ve\<close>:
  \<^verbatim>\<open>for( ; i < TextLen; i++)
     { if (Text[i]=='\\') { i++; }
       else if (!Quote && strchr(" <>",Text[i])) { ve=i; State=3; break; }
       else if ((Quote!=1) && (Text[i]==Quote)) { ve=i; i++; State=3; break; }
       else if (Quote==1)
         { if ((i+6 < TextLen) && !memcmp("&quot;",Text+i,6)) { ve=i; i+=6; State=3; break; } } }\<close>
\<close>

function SealParse_value :: "nat \<Rightarrow> byte list \<Rightarrow> byte \<Rightarrow> nat \<Rightarrow> error + (nat \<times> nat option)" where
  "SealParse_value TextLen Text Q i =
     (if i < TextLen
      then (case rd Text i of
              Inl e \<Rightarrow> Inl e
            | Inr c \<Rightarrow>
                if c = CHR 0x5C then SealParse_value TextLen Text Q (i + 1 + 1)
                else if Q = CHR 0x00 \<and> strchr '' <>'' c then Inr (i, Some i)
                else if Q \<noteq> CHR 0x01 \<and> c = Q then Inr (i + 1, Some i)
                else if Q = CHR 0x01
                then (case (if i + 6 < TextLen then memcmp_eq Text i ''&quot;'' else Inr False) of
                        Inl e \<Rightarrow> Inl e
                      | Inr m \<Rightarrow>
                          if m then Inr (i + 6, Some i)
                          else SealParse_value TextLen Text Q (i + 1))
                else SealParse_value TextLen Text Q (i + 1))
      else Inr (i, None))"
  by pat_completeness auto
termination
  by (relation "measure (\<lambda>(TextLen, Text, Q, i). TextLen - i)") auto

declare SealParse_value.simps [simp del]

text \<open>\<^verbatim>\<open>while((i < TextLen) && (Text[i] != '>')) { i++; }\<close>\<close>

function SealParse_close :: "nat \<Rightarrow> byte list \<Rightarrow> nat \<Rightarrow> error + nat" where
  "SealParse_close TextLen Text i =
     (if i < TextLen
      then (case rd Text i of
              Inl e \<Rightarrow> Inl e
            | Inr c \<Rightarrow> if c \<noteq> CHR ''>'' then SealParse_close TextLen Text (i + 1) else Inr i)
      else Inr i)"
  by pat_completeness auto
termination
  by (relation "measure (\<lambda>(TextLen, Text, i). TextLen - i)") auto

declare SealParse_close.simps [simp del]

text \<open>
  The signature attribute \<open>s\<close>: its offsets in the text and in the file, and what is taken
  over from the context \<open>Args\<close> (\<open>NULL\<close> when empty).
\<close>

definition SealParse_sig :: "nat \<Rightarrow> sealstore \<Rightarrow> sealstore \<Rightarrow> nat \<Rightarrow> nat \<Rightarrow> sealstore" where
  "SealParse_sig Offset Args Rec0 vs ve =
     (let Rec1 = SealSetIindex Rec0 ''@S'' 0 vs;
          Rec2 = SealSetIindex Rec1 ''@S'' 1 ve;
          Rec3 = SealSetIindex Rec2 ''@s'' 0 (Offset + vs);
          Rec4 = SealSetIindex Rec3 ''@s'' 1 (Offset + ve)
      in if Args \<noteq> []
         then (let Rec5 = SealCopy2 Rec4 ''@p'' Args ''@s'';
                   Rec6 = SealSetIindex Rec5 ''@s'' 2 (SealGetIindex Args ''@s'' 2 + 1);
                   Rec7 = SealCopy2 Rec6 ''@sflags'' Args ''@sflags'';
                   Rec8 = SealCopy2 Rec7 ''@dnscachelast'' Args ''@dnscachelast'';
                   Rec9 = SealCopy2 Rec8 ''@public'' Args ''@public''
               in SealCopy2 Rec9 ''@publicbin'' Args ''@publicbin'')
         else Rec4)"

text \<open>
  State 3, the end of an attribute: the field and its decoded value go into \<open>Rec\<close>, then the
  byte after the value decides. \<open>Text[i]\<close> is read without a look at \<open>TextLen\<close>, here and
  after the scan for the closing \<^verbatim>\<open>>\<close>. (The warning printed for a field set twice is not
  part of the model.)
\<close>

definition SealParse_state3 ::
  "nat \<Rightarrow> byte list \<Rightarrow> nat \<Rightarrow> sealstore \<Rightarrow> parse_state \<Rightarrow> error + step" where
  "SealParse_state3 TextLen Text Offset Args st =
     bindE (memrd Text (l_fs st) (u32_sub (l_fe st) (l_fs st))) (\<lambda>fld.
     bindE (case SealGetText (SealSetTextLen (l_Rec st) ''@field'' fld) ''@field'' of
              None \<Rightarrow> Inl NullPointer | Some Str \<Rightarrow> Inr Str) (\<lambda>Str.
     bindE (memrd Text (l_vs st) (u32_sub (l_ve st) (l_vs st))) (\<lambda>val.
       let Rec1 = SealSetTextLen (l_Rec st) ''@field'' fld;
           Rec2 = (if Str = ''s'' then SealParse_sig Offset Args Rec1 (l_vs st) (l_ve st) else Rec1);
           Rec3 = SealSetTextLen Rec2 Str val
       in
     bindE (if l_Quote st \<noteq> CHR 0x01 then SealStrDecode (SealSearch Rec3 Str)
            else SealXmlDecode (SealSearch Rec3 Str)) (\<lambda>d.
       let st1 = st\<lparr>l_Rec := SealDel (SealPut Rec3 d) ''@field''\<rparr> in
     bindE (rd Text (l_i st)) (\<lambda>c.
       if isspace c then Inr (Next (st1\<lparr>l_State := 1, l_i := l_i st + 1\<rparr>))
       else if strchr ''<>/'' c
       then bindE (SealParse_close TextLen Text (l_i st)) (\<lambda>i2.
            bindE (rd Text i2) (\<lambda>c2.
              Inr (Done (st1\<lparr>l_i := (if c2 = CHR ''>'' then i2 + 1 else i2)\<rparr>))))
       else Inr (Next (st1\<lparr>l_IsBad := True, l_i := l_i st + 1\<rparr>)))))))"

text \<open>
  State 2: the value, quoted or not, and state 3 when its end was found.
  \<^verbatim>\<open>Quote=0;
  if (strchr("\"'",Text[i])) { Quote=Text[i]; i++; }
  if ((i+6 < TextLen) && !memcmp("&quot;",Text+i,6)) { Quote=1; i+=6; }
  vs=i;\<close>
\<close>

definition SealParse_state2 ::
  "nat \<Rightarrow> byte list \<Rightarrow> nat \<Rightarrow> sealstore \<Rightarrow> parse_state \<Rightarrow> error + step" where
  "SealParse_state2 TextLen Text Offset Args st =
     bindE (rd Text (l_i st)) (\<lambda>c.
       let (Q1, i1) = (if strchr [CHR 0x22, CHR 0x27] c then (c, l_i st + 1) else (CHR 0x00, l_i st))
       in
     bindE (if i1 + 6 < TextLen then memcmp_eq Text i1 ''&quot;'' else Inr False) (\<lambda>m.
       let (Q2, i2) = (if m then (CHR 0x01, i1 + 6) else (Q1, i1)) in
     bindE (SealParse_value TextLen Text Q2 i2) (\<lambda>(i3, found).
       case found of
         Some e \<Rightarrow>
           SealParse_state3 TextLen Text Offset Args
             (st\<lparr>l_Quote := Q2, l_vs := u32 i2, l_ve := u32 e, l_State := 3, l_i := i3\<rparr>)
       | None \<Rightarrow>
           Inr (Next (st\<lparr>l_Quote := Q2, l_vs := u32 i2, l_IsBad := True, l_i := i3\<rparr>)))))"

text \<open>
  One round of the loop: the reset after a bad parse, then the state.
  \<^verbatim>\<open>if (IsBad) { if (Rec) { SealFree(Rec); Rec=NULL; } IsBad=false; State=0; }\<close>
\<close>

definition SealParse_body ::
  "nat \<Rightarrow> byte list \<Rightarrow> nat \<Rightarrow> sealstore \<Rightarrow> parse_state \<Rightarrow> error + step" where
  "SealParse_body TextLen Text Offset Args st =
     (let st0 = (if l_IsBad st then st\<lparr>l_Rec := [], l_IsBad := False, l_State := 0\<rparr> else st)
      in if l_State st0 = 0 then SealParse_state0 TextLen Text st0
         else if l_State st0 = 1 then SealParse_state1 TextLen Text st0
         else if l_State st0 = 2 then SealParse_state2 TextLen Text Offset Args st0
         else Inr (Next (st0\<lparr>l_IsBad := True, l_i := l_i st0 + 1\<rparr>)))"

text \<open>
  The loop ends: a round in state 0 moves \<open>i\<close> forward, a round in state 1 or 2 moves it
  forward or falls back to state 0 at most one byte earlier.
\<close>

definition SealParse_measure :: "nat \<Rightarrow> parse_state \<Rightarrow> nat" where
  "SealParse_measure TextLen st =
     3 * (TextLen + 1 - l_i st) + (if l_IsBad st \<or> l_State st = 0 then 0 else 4)"

lemma SealParse_alnum_ge: "SealParse_alnum TextLen Text i = Inr i2 \<Longrightarrow> i \<le> i2"
proof (induction TextLen Text i rule: SealParse_alnum.induct)
  case (1 TextLen Text i)
  show ?case
    using "1.prems" "1.IH"
    by (subst (asm) SealParse_alnum.simps) (fastforce split: if_splits sum.splits)
qed

lemma SealParse_value_ge:
  "SealParse_value TextLen Text Q i = Inr (i3, found) \<Longrightarrow>
     i \<le> i3 \<and> (found = None \<longrightarrow> TextLen \<le> i3)"
proof (induction TextLen Text Q i rule: SealParse_value.induct)
  case (1 TextLen Text Q i)
  show ?case
    using "1.prems" "1.IH"
    by (subst (asm) SealParse_value.simps) (fastforce split: if_splits sum.splits)
qed

lemma SealParse_state0_measure:
  assumes "SealParse_state0 TextLen Text st = Inr (Next st')" "l_i st < TextLen"
    "\<not> l_IsBad st" "l_State st = 0"
  shows "SealParse_measure TextLen st' < SealParse_measure TextLen st"
  using assms
  by (auto simp add: SealParse_state0_def SealParse_start_def SealParse_measure_def bindE_def
        split: sum.splits if_splits)

lemma SealParse_state1_measure:
  assumes "SealParse_state1 TextLen Text st = Inr (Next st')" "l_i st < TextLen"
    "\<not> l_IsBad st" "l_State st = 1"
  shows "SealParse_measure TextLen st' < SealParse_measure TextLen st"
  using assms
  by (auto simp add: SealParse_state1_def SealParse_measure_def bindE_def Let_def
        split: sum.splits if_splits prod.splits dest!: SealParse_alnum_ge)

lemma SealParse_state3_i:
  assumes "SealParse_state3 TextLen Text Offset Args st = Inr (Next st')"
  shows "l_i st' = l_i st + 1"
  using assms
  by (auto simp add: SealParse_state3_def bindE_def Let_def
        split: sum.splits if_splits option.splits)

lemma SealParse_state2_measure:
  assumes "SealParse_state2 TextLen Text Offset Args st = Inr (Next st')" "l_i st < TextLen"
    "\<not> l_IsBad st" "l_State st = 2"
  shows "SealParse_measure TextLen st' < SealParse_measure TextLen st"
  using assms
  by (auto simp add: SealParse_state2_def SealParse_measure_def bindE_def Let_def
        split: sum.splits if_splits prod.splits option.splits
        dest!: SealParse_value_ge SealParse_state3_i)

lemma SealParse_body_measure:
  assumes "SealParse_body TextLen Text Offset Args st = Inr (Next st')" "l_i st < TextLen"
  shows "SealParse_measure TextLen st' < SealParse_measure TextLen st"
proof -
  define st0 where "st0 = (if l_IsBad st then st\<lparr>l_Rec := [], l_IsBad := False, l_State := 0\<rparr> else st)"
  have i0: "l_i st0 = l_i st" and b0: "\<not> l_IsBad st0" by (simp_all add: st0_def)
  have m0: "SealParse_measure TextLen st0 = SealParse_measure TextLen st"
    by (simp add: st0_def SealParse_measure_def)
  consider "l_State st0 = 0" | "l_State st0 = 1" | "l_State st0 = 2"
    | "l_State st0 \<noteq> 0" "l_State st0 \<noteq> 1" "l_State st0 \<noteq> 2"
    by blast
  then have "SealParse_measure TextLen st' < SealParse_measure TextLen st0"
  proof cases
    case 1
    then have "SealParse_state0 TextLen Text st0 = Inr (Next st')"
      using assms(1) by (simp add: SealParse_body_def st0_def[symmetric])
    then show ?thesis using assms(2) i0 b0 1 by (intro SealParse_state0_measure) simp_all
  next
    case 2
    then have "SealParse_state1 TextLen Text st0 = Inr (Next st')"
      using assms(1) by (simp add: SealParse_body_def st0_def[symmetric])
    then show ?thesis using assms(2) i0 b0 2 by (intro SealParse_state1_measure) simp_all
  next
    case 3
    then have "SealParse_state2 TextLen Text Offset Args st0 = Inr (Next st')"
      using assms(1) by (simp add: SealParse_body_def st0_def[symmetric])
    then show ?thesis using assms(2) i0 b0 3 by (intro SealParse_state2_measure) simp_all
  next
    case 4
    then have "st' = st0\<lparr>l_IsBad := True, l_i := l_i st0 + 1\<rparr>"
      using assms(1) by (simp add: SealParse_body_def st0_def[symmetric])
    then show ?thesis using assms(2) i0 b0 4 by (simp add: SealParse_measure_def)
  qed
  with m0 show ?thesis by simp
qed

function SealParse_loop ::
  "nat \<Rightarrow> byte list \<Rightarrow> nat \<Rightarrow> sealstore \<Rightarrow> parse_state \<Rightarrow> error + parse_state" where
  "SealParse_loop TextLen Text Offset Args st =
     (if l_i st < TextLen
      then (case SealParse_body TextLen Text Offset Args st of
              Inl e \<Rightarrow> Inl e
            | Inr (Next st') \<Rightarrow> SealParse_loop TextLen Text Offset Args st'
            | Inr (Done st') \<Rightarrow> Inr st')
      else Inr st)"
  by pat_completeness auto
termination
  by (relation "measure (\<lambda>(TextLen, Text, Offset, Args, st). SealParse_measure TextLen st)")
    (auto dest: SealParse_body_measure)

declare SealParse_loop.simps [simp del]

text \<open>
  \<open>SealParse\<close>: \<open>Text\<close> may be \<open>NULL\<close>; the result is the record, \<open>NULL\<close> (the empty store) when
  none was found.
  \<^verbatim>\<open>if (!Text || (TextLen < 10)) { return(NULL); }
  ...
  Done: if (Rec) { Rec = SealSetIindex(Rec,"@RecEnd",0,i); } return(Rec);\<close>
\<close>

definition SealParse :: "nat \<Rightarrow> byte list option \<Rightarrow> nat \<Rightarrow> sealstore \<Rightarrow> error + sealstore" where
  "SealParse TextLen Text Offset Args =
     (case Text of
        None \<Rightarrow> Inr []
      | Some buf \<Rightarrow>
          if TextLen < 10 then Inr []
          else bindE (SealParse_loop TextLen buf Offset Args
                        \<lparr>l_Rec = [], l_State = 0, l_Quote = CHR 0x00, l_i = 0, l_fs = 0, l_fe = 0,
                         l_vs = 0, l_ve = 0, l_IsBad = False\<rparr>) (\<lambda>st.
                 Inr (if l_Rec st \<noteq> [] then SealSetIindex (l_Rec st) ''@RecEnd'' 0 (l_i st)
                      else [])))"

section \<open>The walk over the chunks of a Matroska file\<close>

text \<open>
  What \<open>_Matroskawalk\<close> keeps of a verified record in the context \<open>Args\<close>:
  \<^verbatim>\<open>Args = SealCopy2(Args,"@p",Rec,"@p"); ... Args = SealCopy2(Args,"@sflags",Rec,"@sflags");\<close>
\<close>

definition Matroskawalk_retain :: "sealstore \<Rightarrow> sealstore \<Rightarrow> sealstore" where
  "Matroskawalk_retain Args Rec =
     (let Args1 = SealCopy2 Args ''@p'' Rec ''@p'';
          Args2 = SealCopy2 Args1 ''@s'' Rec ''@s'';
          Args3 = SealCopy2 Args2 ''@dnscachelast'' Rec ''@dnscachelast'';
          Args4 = SealCopy2 Args3 ''@public'' Rec ''@public'';
          Args5 = SealCopy2 Args4 ''@publicbin'' Rec ''@publicbin''
      in SealCopy2 Args5 ''@sflags'' Rec ''@sflags'')"

text \<open>
  The records of one SEAL chunk, \<^verbatim>\<open>while(ChunkOffset < iLen) { ... }\<close>. \<open>SealVerify\<close> is the
  external verifier, a parameter of the model: it is given the record and the file and
  returns the record. The pointer \<open>Mmap->mem+Offset+ChunkOffset\<close> is the file from that byte
  on, so a read of \<open>SealParse\<close> past its \<open>TextLen\<close> is a read of the bytes that follow the
  chunk, and out of bounds only past the end of the file. \<open>ChunkOffset += RecEnd\<close> is
  written without wrap-around: both numbers are offsets into the chunk.
\<close>

function Matroskawalk_chunk ::
  "(sealstore \<Rightarrow> mmapfile \<Rightarrow> sealstore) \<Rightarrow> mmapfile \<Rightarrow> nat \<Rightarrow> nat \<Rightarrow> sealstore \<Rightarrow> nat
     \<Rightarrow> error + sealstore" where
  "Matroskawalk_chunk SealVerify Mmap Offset iLen Args ChunkOffset =
     (if ChunkOffset < iLen
      then (case SealParse (iLen - ChunkOffset) (Some (drop (Offset + ChunkOffset) (mem Mmap)))
                  (Offset + ChunkOffset) Args of
              Inl e \<Rightarrow> Inl e
            | Inr Rec \<Rightarrow>
                if Rec = [] then Inr Args
                else let Rec1 = SealVerify (SealCopy2 Rec ''@pubkeyfile'' Args ''@pubkeyfile'') Mmap;
                         RecEnd = (if SealGetIindex Rec1 ''@RecEnd'' 0 \<le> 0 then 1
                                   else SealGetIindex Rec1 ''@RecEnd'' 0)
                     in Matroskawalk_chunk SealVerify Mmap Offset iLen
                          (Matroskawalk_retain Args Rec1) (ChunkOffset + RecEnd))
      else Inr Args)"
  by pat_completeness auto
termination
  by (relation "measure (\<lambda>(SealVerify, Mmap, Offset, iLen, Args, ChunkOffset). iLen - ChunkOffset)")
    auto

declare Matroskawalk_chunk.simps [simp del]

text \<open>A decoded value that is not the sentinel has moved the offset forward.\<close>

lemma MaReadData_loop_ge: "MaReadData_loop Mmap b Val Offset = Inr (v, Offset') \<Longrightarrow> Offset \<le> Offset'"
proof (induction Mmap b Val Offset rule: MaReadData_loop.induct)
  case (1 Mmap b Val Offset)
  show ?case
    using "1.prems" "1.IH"
    by (subst (asm) MaReadData_loop.simps) (fastforce split: if_splits sum.splits)
qed

lemma MaReadData_advances:
  "MaReadData Mmap Offset = Inr (v, Offset') \<Longrightarrow> v \<noteq> - 1 \<Longrightarrow> Offset < Offset'"
  by (auto simp add: MaReadData_def Let_def split: if_splits sum.splits dest: MaReadData_loop_ge)

text \<open>
  The loop of \<open>_Matroskawalk\<close>, from the offset of a chunk:
  \<^verbatim>\<open>while(Offset < Mmap->memsize)
    { iTag = _MaReadData(Mmap,&Offset);
      if (iTag == (size_t)(-1)) { break; } // invalid
      iLen = _MaReadData(Mmap,&Offset);
      if (iLen == (size_t)(-1)) { break; } // invalid
      if (Offset+iLen > Mmap->memsize) { break; } // overflow
      if (iTag == 0x5345414C) { ... }
      Offset+=iLen; }
  return(Args);\<close>
  \<open>Offset+iLen\<close> is written without wrap-around: \<open>iLen\<close> is below \<open>2^56\<close> and \<open>Offset\<close> is at
  most the size of a mapped file.
\<close>

function Matroskawalk_loop ::
  "(sealstore \<Rightarrow> mmapfile \<Rightarrow> sealstore) \<Rightarrow> mmapfile \<Rightarrow> sealstore \<Rightarrow> nat \<Rightarrow> error + sealstore" where
  "Matroskawalk_loop SealVerify Mmap Args Offset =
     (if Offset < memsize Mmap
      then (case MaReadData Mmap Offset of
              Inl e \<Rightarrow> Inl e
            | Inr (iTag, Offset1) \<Rightarrow>
                if iTag = - 1 then Inr Args
                else (case MaReadData Mmap Offset1 of
                        Inl e \<Rightarrow> Inl e
                      | Inr (iLen, Offset2) \<Rightarrow>
                          if iLen = - 1 then Inr Args
                          else if memsize Mmap < Offset2 + unat iLen then Inr Args
                          else (case (if iTag = 0x5345414C
                                      then Matroskawalk_chunk SealVerify Mmap Offset2 (unat iLen) Args 0
                                      else Inr Args) of
                                  Inl e \<Rightarrow> Inl e
                                | Inr Args1 \<Rightarrow>
                                    Matroskawalk_loop SealVerify Mmap Args1 (Offset2 + unat iLen))))
      else Inr Args)"
  by pat_completeness auto

lemma Matroskawalk_loop_dom_all: "All Matroskawalk_loop_dom"
proof (relation "measure (\<lambda>(SealVerify, Mmap, Args, Offset). memsize Mmap - Offset)")
  show "wf (measure (\<lambda>(SealVerify, Mmap, Args, Offset). memsize Mmap - Offset))" by simp
next
  fix SealVerify Mmap and Args Args1 :: sealstore and Offset Offset1 Offset2 :: nat
    and iTag iLen :: "64 word" and x y
  assume "Offset < memsize Mmap" "MaReadData Mmap Offset = Inr x" "(iTag, Offset1) = x"
    "iTag \<noteq> - 1" "MaReadData Mmap Offset1 = Inr y" "(iLen, Offset2) = y" "iLen \<noteq> - 1"
    "\<not> memsize Mmap < Offset2 + unat iLen"
  then have "Offset < Offset1" "Offset1 < Offset2"
    using MaReadData_advances[of Mmap Offset iTag Offset1]
      MaReadData_advances[of Mmap Offset1 iLen Offset2] by simp_all
  then show "((SealVerify, Mmap, Args1, Offset2 + unat iLen), SealVerify, Mmap, Args, Offset)
          \<in> measure (\<lambda>(SealVerify, Mmap, Args, Offset). memsize Mmap - Offset)"
    using \<open>Offset < memsize Mmap\<close> by simp
qed

termination Matroskawalk_loop
  by (rule Matroskawalk_loop_dom_all)

declare Matroskawalk_loop.simps [simp del]

definition Matroskawalk ::
  "(sealstore \<Rightarrow> mmapfile \<Rightarrow> sealstore) \<Rightarrow> sealstore \<Rightarrow> mmapfile \<Rightarrow> error + sealstore" where
  "Matroskawalk SealVerify Args Mmap = Matroskawalk_loop SealVerify Mmap Args 0"

text \<open>
  The three ways the walk stops at a chunk: the tag is invalid, the length is invalid, or
  the declared length goes past the end of the file.
\<close>

definition Matroskawalk_stops :: "mmapfile \<Rightarrow> nat \<Rightarrow> bool" where
  "Matroskawalk_stops Mmap Offset =
     (case MaReadData Mmap Offset of
        Inl e \<Rightarrow> False
      | Inr (iTag, Offset1) \<Rightarrow>
          iTag = - 1 \<or>
          (case MaReadData Mmap Offset1 of
             Inl e \<Rightarrow> False
           | Inr (iLen, Offset2) \<Rightarrow> iLen = - 1 \<or> memsize Mmap < Offset2 + unat iLen))"

text \<open>
  The chunk that begins at an offset, where the three tests of the loop let the walk go on:
  its tag, the offset of its payload and its length. \<open>None\<close> where the walk stops.
\<close>

definition Matroskawalk_header :: "mmapfile \<Rightarrow> nat \<Rightarrow> (64 word \<times> nat \<times> nat) option" where
  "Matroskawalk_header Mmap Offset =
     (case MaReadData Mmap Offset of
        Inl e \<Rightarrow> None
      | Inr (iTag, Offset1) \<Rightarrow>
          if iTag = - 1 then None
          else (case MaReadData Mmap Offset1 of
                  Inl e \<Rightarrow> None
                | Inr (iLen, Offset2) \<Rightarrow>
                    if iLen = - 1 \<or> memsize Mmap < Offset2 + unat iLen then None
                    else Some (iTag, Offset2, unat iLen)))"

lemma Matroskawalk_header_Some:
  "Matroskawalk_header Mmap Offset = Some (iTag, Offset2, iLen) \<Longrightarrow>
     Offset < Offset2 \<and> Offset2 + iLen \<le> memsize Mmap"
  by (auto simp add: Matroskawalk_header_def split: sum.splits prod.splits if_splits
        dest!: MaReadData_advances)

text \<open>
  The chunks of a file from an offset on, in the order of the file, up to the first place
  where a tag or a length is invalid or a chunk would pass the end of the file (or up to the
  end of the file). They depend on the bytes of the file alone. \<open>Matroskawalk_end\<close> is the
  offset after the last of them: the place where the walk stops.
\<close>

function Matroskawalk_chunks :: "mmapfile \<Rightarrow> nat \<Rightarrow> (64 word \<times> nat \<times> nat) list" where
  "Matroskawalk_chunks Mmap Offset =
     (if Offset < memsize Mmap
      then (case Matroskawalk_header Mmap Offset of
              None \<Rightarrow> []
            | Some (iTag, Offset2, iLen) \<Rightarrow>
                (iTag, Offset2, iLen) # Matroskawalk_chunks Mmap (Offset2 + iLen))
      else [])"
  by pat_completeness auto
termination
  by (relation "measure (\<lambda>(Mmap, Offset). memsize Mmap - Offset)")
    (auto dest!: Matroskawalk_header_Some)

declare Matroskawalk_chunks.simps [simp del]

definition Matroskawalk_end :: "mmapfile \<Rightarrow> nat \<Rightarrow> nat" where
  "Matroskawalk_end Mmap Offset =
     foldl (\<lambda>k (iTag, Offset2, iLen). Offset2 + iLen) Offset (Matroskawalk_chunks Mmap Offset)"

section \<open>The walk in the words of the specification\<close>

text \<open>
  Section 4.5 of the specification, written down on its own to be compared with the loop
  of \<open>_Matroskawalk\<close>. ``After each record, thread forward into the running context store:
  previous-signature offset, record counter, DNS-cache, resolved-key cache, and flags'':
  these are the fields \<open>@p\<close>, \<open>@s\<close> (its third element is the record counter),
  \<open>@dnscachelast\<close>, \<open>@public\<close>, \<open>@publicbin\<close> and \<open>@sflags\<close>, each copied from the verified
  record when the record has it.
\<close>

definition spec_threaded :: "string list" where
  "spec_threaded = [''@p'', ''@s'', ''@dnscachelast'', ''@public'', ''@publicbin'', ''@sflags'']"

definition spec_thread_forward :: "sealstore \<Rightarrow> sealstore \<Rightarrow> sealstore" where
  "spec_thread_forward Args Rec = foldl (\<lambda>A name. SealCopy2 A name Rec name) Args spec_threaded"

text \<open>
  ``Repeatedly invoke RecordParser over the remaining payload, and for each record found,
  forward it (plus the original mapped file bytes) to the external verifier, then advance
  by the record's reported end offset (guard against a zero/negative advance ... treat as
  advancing at least one byte).''
\<close>

function spec_records ::
  "(sealstore \<Rightarrow> mmapfile \<Rightarrow> sealstore) \<Rightarrow> mmapfile \<Rightarrow> nat \<Rightarrow> nat \<Rightarrow> sealstore \<Rightarrow> nat
     \<Rightarrow> error + sealstore" where
  "spec_records SealVerify Mmap Offset iLen Args ChunkOffset =
     (if iLen \<le> ChunkOffset then Inr Args
      else bindE (SealParse (iLen - ChunkOffset) (Some (drop (Offset + ChunkOffset) (mem Mmap)))
                   (Offset + ChunkOffset) Args) (\<lambda>Rec.
             if Rec = [] then Inr Args
             else let Verified = SealVerify (SealCopy2 Rec ''@pubkeyfile'' Args ''@pubkeyfile'') Mmap
                  in spec_records SealVerify Mmap Offset iLen (spec_thread_forward Args Verified)
                       (ChunkOffset + max 1 (SealGetIindex Verified ''@RecEnd'' 0))))"
  by pat_completeness auto
termination
  by (relation "measure (\<lambda>(SealVerify, Mmap, Offset, iLen, Args, ChunkOffset). iLen - ChunkOffset)")
    auto

declare spec_records.simps [simp del]



section \<open>Properties of the EBML codec\<close>

lemma count_eq:
  "MaWriteData_count 1 127 v =
     (if v < 127 then 1 else if v < 16383 then 2 else if v < 2097151 then 3
      else if v < 268435455 then 4 else if v < 34359738367 then 5
      else if v < 4398046511103 then 6 else if v < 562949953421311 then 7 else 8)"
  by (simp add: MaWriteData_count.simps[of _ _ v] not_less)

lemma of_char_char_of_unat: "of_char (char_of (unat (w::64 word))) = (take_bit 8 w :: 64 word)"
  by (metis (mono_tags, lifting) char_of_eq_iff of_nat_of_char of_nat_unat
    take_bit_of_nat ucast_id)

lemma push_drop_take: "push_bit 8 (drop_bit 8 x) OR take_bit 8 x = (x :: 64 word)"
  by (rule bit_word_eqI) (auto simp add: bit_simps)

lemma scan_gen:
  "p < 8 \<Longrightarrow> bit (of_char Dat :: int) p \<Longrightarrow> (\<forall>k. p < k \<and> k < 8 \<longrightarrow> \<not> bit (of_char Dat :: int) k)
    \<Longrightarrow> b \<le> 7 - p \<Longrightarrow> MaReadData_scan Dat b = 7 - p"
proof (induction "7 - p - b" arbitrary: b)
  case 0
  then have "b = 7 - p" by simp
  with 0 show ?case
    by (subst MaReadData_scan.simps) (simp add: and_exp_eq_0_iff_not_bit)
next
  case (Suc d)
  then have lt: "b < 7 - p" by simp
  have "p < 7 - b \<and> 7 - b < 8" using lt by arith
  then have "\<not> bit (of_char Dat :: int) (7 - b)" using Suc.prems(3) by blast
  moreover have "b < 8" using lt by arith
  ultimately have "MaReadData_scan Dat b = MaReadData_scan Dat (b + 1)"
    by (subst MaReadData_scan.simps) (simp add: and_exp_eq_0_iff_not_bit)
  also have "\<dots> = 7 - p"
    using Suc lt by (intro Suc.hyps(1)) auto
  finally show ?case .
qed

lemma loop_gen:
  "off + k \<le> memsize M \<Longrightarrow>
   (\<forall>j<k. mem M ! (off + j) = char_of (unat (drop_bit (8 * (k - 1 - j)) w))) \<Longrightarrow>
   MaReadData_loop M (int k - 1) (drop_bit (8 * k) w) off = Inr (w, off + k)"
proof (induction k arbitrary: off)
  case 0
  then show ?case by (subst MaReadData_loop.simps) simp
next
  case (Suc k)
  have b0: "mem M ! off = char_of (unat (drop_bit (8 * k) w))"
    using Suc.prems(2)[rule_format, of 0] by simp
  have step: "push_bit 8 (drop_bit (8 * Suc k) w) OR of_char (mem M ! off) = drop_bit (8 * k) w"
    using push_drop_take[of "drop_bit (8 * k) w"]
    by (simp add: b0 of_char_char_of_unat drop_bit_drop_bit add.commute)
  have rest: "MaReadData_loop M (int k - 1) (drop_bit (8 * k) w) (off + 1) = Inr (w, off + 1 + k)"
  proof (rule Suc.IH)
    show "off + 1 + k \<le> memsize M" using Suc.prems(1) by simp
    show "\<forall>j<k. mem M ! (off + 1 + j) = char_of (unat (drop_bit (8 * (k - 1 - j)) w))"
    proof (intro allI impI)
      fix j assume "j < k"
      then show "mem M ! (off + 1 + j) = char_of (unat (drop_bit (8 * (k - 1 - j)) w))"
        using Suc.prems(2)[rule_format, of "Suc j"] by simp
    qed
  qed
  show ?case
    using Suc.prems(1) step rest
    by (subst MaReadData_loop.simps) (simp add: rd_def memsize_def)
qed

lemma fill_gen:
  "1 \<le> i \<Longrightarrow> i \<le> n \<Longrightarrow> length buf = n \<Longrightarrow>
   MaWriteData_fill n i buf V m = (buf', V', m') \<Longrightarrow>
   V' = drop_bit (8 * (n - i)) V \<and> m' = drop_bit (n - i) m \<and> length buf' = n \<and>
   (\<forall>j<n. buf' ! j = (if 1 \<le> j \<and> j \<le> n - i
                        then char_of (unat (drop_bit (8 * (n - i - j)) V AND 0xFF))
                        else buf ! j))"
proof (induction n i buf V m rule: MaWriteData_fill.induct)
  case (1 n i buf V m)
  show ?case
  proof (cases "i < n")
    case False
    from "1.prems"(4) False have "(buf, V, m) = (buf', V', m')"
      by (subst (asm) MaWriteData_fill.simps) simp
    with False "1.prems" show ?thesis by auto
  next
    case True
    let ?buf = "buf[n - i := char_of (unat (V AND 0xFF))]"
    have eq: "MaWriteData_fill n (i + 1) ?buf (drop_bit 8 V) (drop_bit 1 m) = (buf', V', m')"
      using "1.prems"(4) True by (simp add: MaWriteData_fill.simps[of n i])
    have IH: "V' = drop_bit (8 * (n - (i + 1))) (drop_bit 8 V) \<and>
              m' = drop_bit (n - (i + 1)) (drop_bit 1 m) \<and> length buf' = n \<and>
              (\<forall>j<n. buf' ! j = (if 1 \<le> j \<and> j \<le> n - (i + 1)
                        then char_of (unat (drop_bit (8 * (n - (i + 1) - j)) (drop_bit 8 V) AND 0xFF))
                        else ?buf ! j))"
      using True "1.prems" by (intro "1.IH"[OF True _ _ _ eq]) auto
    have IHb: "buf' ! j = (if 1 \<le> j \<and> j \<le> n - (i + 1)
                        then char_of (unat (drop_bit (8 * (n - (i + 1) - j)) (drop_bit 8 V) AND 0xFF))
                        else ?buf ! j)" if "j < n" for j
      using IH that by blast
    have a: "8 * (n - (i + 1)) + 8 = 8 * (n - i)" using True by simp
    have b: "n - (i + 1) + 1 = n - i" using True by simp
    have V: "V' = drop_bit (8 * (n - i)) V"
      using IH a by (simp add: drop_bit_drop_bit)
    have m: "m' = drop_bit (n - i) m"
      using IH b by (simp add: drop_bit_drop_bit)
    have "buf' ! j = (if 1 \<le> j \<and> j \<le> n - i
                        then char_of (unat (drop_bit (8 * (n - i - j)) V AND 0xFF))
                        else buf ! j)" if "j < n" for j
    proof (cases "1 \<le> j \<and> j \<le> n - (i + 1)")
      case T: True
      have j1: "1 \<le> j \<and> j \<le> n - i" using T by arith
      have e: "8 * (n - (i + 1) - j) + 8 = 8 * (n - i - j)" using T True by arith
      have "buf' ! j = char_of (unat (drop_bit (8 * (n - (i + 1) - j)) (drop_bit 8 V) AND 0xFF))"
        using IHb[OF that] by (simp only: if_P[OF T])
      also have "\<dots> = char_of (unat (drop_bit (8 * (n - i - j)) V AND 0xFF))"
        by (simp only: drop_bit_drop_bit e)
      finally show ?thesis using j1 by simp
    next
      case F: False
      show ?thesis
      proof (cases "j = n - i")
        case True
        have j1: "1 \<le> j \<and> j \<le> n - i" "j < length buf" "\<not> (1 \<le> j \<and> j \<le> n - (i + 1))"
          using True \<open>i < n\<close> "1.prems" by arith+
        have "buf' ! j = ?buf ! j" using IHb[OF that] by (simp only: if_not_P[OF j1(3)])
        also have "\<dots> = char_of (unat (V AND 0xFF))" using True j1(2) by simp
        finally show ?thesis using j1(1) True by simp
      next
        case False
        have j1: "\<not> (1 \<le> j \<and> j \<le> n - i)" using F False by arith
        have "buf' ! j = ?buf ! j" using IHb[OF that] by (simp only: if_not_P[OF F])
        also have "\<dots> = buf ! j" using False by simp
        finally show ?thesis by (simp only: if_not_P[OF j1])
      qed
    qed
    with V m IH show ?thesis by simp
  qed
qed

lemma and_255: "(x::64 word) AND 0xFF = take_bit 8 x"
  by (simp add: take_bit_eq_mask mask_eq_exp_minus_1)

lemma char_of_unat_and: "char_of (unat (x AND 0xFF)) = char_of (unat (x::64 word))"
  by (simp add: and_255 unsigned_take_bit_eq char_of_take_bit_eq)

lemma bit_nat_less: "bit (h::nat) k \<Longrightarrow> h < 2 ^ q \<Longrightarrow> k < q"
proof (rule ccontr)
  assume b: "bit h k" and h: "h < 2 ^ q" and "\<not> k < q"
  then have "(2::nat) ^ q \<le> 2 ^ k" by simp
  with h have "h < 2 ^ k" by (rule less_le_trans)
  then have "h div 2 ^ k = 0" by simp
  with b show False by (simp add: bit_iff_odd)
qed

lemma first_byte:
  fixes h :: nat
  assumes "1 \<le> n" "n \<le> 8" "h < 2 ^ (8 - n)"
  defines "F \<equiv> char_of ((2 ^ (8 - n) :: nat) OR h)"
  shows "F \<noteq> CHR 0x00" "MaReadData_scan F 0 = n - 1"
    "(word_of_int ((of_char F :: int) AND NOT (push_bit (8 - n) 0xff)) :: 64 word) = of_nat h"
proof -
  have hb: "k < 8 - n" if "bit h k" for k
    using that assms(3) by (rule bit_nat_less)
  have "(of_char F :: int) = int (take_bit 8 ((2 ^ (8 - n) :: nat) OR h))"
    unfolding F_def by (simp add: of_nat_of_char[symmetric, where 'a=int] take_bit_eq_mod del: of_nat_of_char)
  then have bitF: "bit (of_char F :: int) k \<longleftrightarrow> (k = 8 - n \<or> bit h k)" for k
    using assms(1,2) hb[of k] by (auto simp add: bit_simps)
  show "F \<noteq> CHR 0x00"
  proof
    assume "F = CHR 0x00"
    then have "(of_char F :: int) = 0" by simp
    then have "\<not> bit (of_char F :: int) (8 - n)" by simp
    then show False using bitF by simp
  qed
  have "MaReadData_scan F 0 = 7 - (8 - n)"
  proof (rule scan_gen)
    show "8 - n < 8" using assms(1) by simp
    show "bit (of_char F :: int) (8 - n)" using bitF by simp
    show "\<forall>k. 8 - n < k \<and> k < 8 \<longrightarrow> \<not> bit (of_char F :: int) k"
    proof (intro allI impI notI)
      fix k assume k: "8 - n < k \<and> k < 8" and "bit (of_char F :: int) k"
      then have "bit h k" using bitF by auto
      then have "k < 8 - n" by (rule hb)
      with k show False by simp
    qed
    show "0 \<le> 7 - (8 - n)" by simp
  qed
  then show "MaReadData_scan F 0 = n - 1" using assms(1,2) by simp
  have "(of_char F :: int) AND NOT (push_bit (8 - n) 0xff) = int h"
  proof (rule bit_eqI)
    fix k
    show "bit ((of_char F :: int) AND NOT (push_bit (8 - n) 0xff)) k \<longleftrightarrow> bit (int h) k"
      using hb[of k] by (auto simp add: bit_simps bitF)
  qed
  then show "(word_of_int ((of_char F :: int) AND NOT (push_bit (8 - n) 0xff)) :: 64 word) = of_nat h"
    by simp
qed


lemma bit_255_word: "bit (255::64 word) k \<longleftrightarrow> k < 8"
proof -
  have e: "(255::64 word) = mask 8" by (simp add: mask_eq_exp_minus_1)
  show ?thesis unfolding e by (simp only: bit_mask_iff possible_bit_word) auto
qed

lemma bit_255_int: "bit (255::int) k \<longleftrightarrow> k < 8"
proof -
  have e: "(255::int) = mask 8" by (simp add: mask_eq_exp_minus_1)
  show ?thesis unfolding e by (simp only: bit_mask_iff) (simp add: possible_bit_def)
qed

lemma roundtrip_n:
  assumes cnt: "MaWriteData_count 1 127 w = n" and n: "1 \<le> n" "n \<le> 8"
    and bound: "unat w < 2 ^ (7 * n)"
  shows "MaReadData \<lparr>mem = MaWriteData_bytes w\<rparr> 0 = Inr (w, n) \<and> length (MaWriteData_bytes w) = n"
proof -
  define buf0 where "buf0 = (replicate n (CHR 0x00))[0 := char_of (push_bit (8 - n) 1 :: nat)]"
  obtain buf V' m' where fill: "MaWriteData_fill n 1 buf0 w 0xff = (buf, V', m')"
    by (cases "MaWriteData_fill n 1 buf0 w 0xff") auto
  have g: "V' = drop_bit (8 * (n - 1)) w \<and> m' = drop_bit (n - 1) 0xff \<and> length buf = n \<and>
   (\<forall>j<n. buf ! j = (if 1 \<le> j \<and> j \<le> n - 1
                        then char_of (unat (drop_bit (8 * (n - 1 - j)) w AND 0xFF))
                        else buf0 ! j))"
    using n by (intro fill_gen[OF _ _ _ fill]) (simp_all add: buf0_def)
  define h where "h = unat V'"
  have "(2::nat) ^ (7 * n) = 2 ^ (8 * (n - 1)) * 2 ^ (8 - n)"
    using n by (simp add: power_add[symmetric])
  with bound have "unat w div 2 ^ (8 * (n - 1)) < 2 ^ (8 - n)"
    by (simp add: less_mult_imp_div_less mult.commute)
  moreover have "h = drop_bit (8 * (n - 1)) (unat w)"
    using g by (simp add: h_def unat_drop_bit_eq)
  ultimately have hb: "h < 2 ^ (8 - n)"
    by (simp add: drop_bit_eq_div)
  have V'h: "V' = of_nat h" by (simp add: h_def)
  have bitV: "k < 8 - n" if "bit V' k" for k
    using that hb bit_nat_less[of h k "8 - n"] by (simp add: h_def bit_unsigned_iff)
  have msk: "V' AND 0xFF AND word_of_int m' = V'"
  proof (rule bit_word_eqI)
    fix k assume "k < LENGTH(64)"
    have "m' = drop_bit (n - 1) 0xff" using g by simp
    then show "bit (V' AND 0xFF AND word_of_int m') k \<longleftrightarrow> bit V' k"
      using bitV[of k] n \<open>k < LENGTH(64)\<close> by (auto simp add: bit_simps bit_255_word bit_255_int)
  qed
  have b0: "buf ! 0 = char_of ((2 ^ (8 - n)) :: nat)"
    using g n by (simp add: buf0_def)
  have "(2::nat) ^ (8 - n) \<le> 2 ^ 7" using n by (intro power_increasing) auto
  then have p256: "(2::nat) ^ (8 - n) mod 256 = 2 ^ (8 - n)" by simp
  define F where "F = char_of ((2 ^ (8 - n) :: nat) OR h)"
  have "MaWriteData_bytes w =
      (case MaWriteData_fill n 1 buf0 w 0xff of
         (buf, Val', mask_i) \<Rightarrow>
           buf[0 := char_of ((of_char (buf ! 0) :: nat) OR unat (Val' AND 0xFF AND word_of_int mask_i))])"
    unfolding MaWriteData_bytes_def cnt Let_def buf0_def by (rule refl)
  also have "\<dots> = buf[0 := char_of ((of_char (buf ! 0) :: nat) OR unat (V' AND 0xFF AND word_of_int m'))]"
    by (simp only: fill prod.case)
  also have "\<dots> = buf[0 := F]"
    by (simp add: msk b0 p256 F_def h_def)
  finally have bytes: "MaWriteData_bytes w = buf[0 := F]" .
  have len: "length (MaWriteData_bytes w) = n" using bytes g by simp
  have fb: "F \<noteq> CHR 0x00" "MaReadData_scan F 0 = n - 1"
    "(word_of_int ((of_char F :: int) AND NOT (push_bit (8 - n) 0xff)) :: 64 word) = of_nat h"
    unfolding F_def using first_byte[OF n hb] by simp_all
  let ?M = "\<lparr>mem = MaWriteData_bytes w\<rparr>"
  have loop: "MaReadData_loop ?M (int (n - 1) - 1) (drop_bit (8 * (n - 1)) w) 1 = Inr (w, 1 + (n - 1))"
  proof (rule loop_gen)
    show "1 + (n - 1) \<le> memsize ?M" using len n by (simp add: memsize_def)
    show "\<forall>j<n - 1. mem ?M ! (1 + j) = char_of (unat (drop_bit (8 * (n - 1 - 1 - j)) w))"
    proof (intro allI impI)
      fix j assume j: "j < n - 1"
      then have "buf ! (1 + j) = char_of (unat (drop_bit (8 * (n - 1 - (1 + j))) w AND 0xFF))"
        using g by simp
      then show "mem ?M ! (1 + j) = char_of (unat (drop_bit (8 * (n - 1 - 1 - j)) w))"
        using j by (simp add: bytes char_of_unat_and)
    qed
  qed
  have "7 - (n - 1) = 8 - n" using n by simp
  then have "MaReadData ?M 0 = Inr (w, n)"
    using n len fb loop g
    by (simp add: MaReadData_def memsize_def rd_def bytes Let_def V'h[symmetric])
  with len show ?thesis by simp
qed

lemma SealSearch_SealSet: "SealSearch (SealSet vf t name v) name = Some \<lparr>Type = t, Field = name, Value = v\<rparr>"
  by (induction vf) (simp_all add: SealSearch_def)

lemma SealSet_SealSet: "SealSet (SealSet vf t name v) t' name v' = SealSet vf t' name v'"
  by (induction vf) simp_all

lemma count_facts:
  fixes v :: "64 word"
  defines "n \<equiv> MaWriteData_count 1 127 v"
  shows "1 \<le> n \<and> n \<le> 8 \<and> (n < 8 \<longrightarrow> unat v < 2 ^ (7 * n) - 1) \<and>
         (1 < n \<longrightarrow> 2 ^ (7 * (n - 1)) - 1 \<le> unat v)"
  unfolding n_def count_eq
  by (simp add: word_less_nat_alt word_le_nat_alt not_less)

lemma count_bound:
  assumes "v < 2 ^ 56"
  shows "unat v < 2 ^ (7 * MaWriteData_count 1 127 v)"
proof (cases "MaWriteData_count 1 127 v < 8")
  case True
  then have "unat v < 2 ^ (7 * MaWriteData_count 1 127 v) - 1"
    using count_facts[of v] by simp
  then show ?thesis by arith
next
  case False
  then have "MaWriteData_count 1 127 v = 8" using count_facts[of v] by simp
  then show ?thesis using assms by (simp add: word_less_nat_alt)
qed


text \<open>
  Claim C3. For every unsigned integer \<open>v\<close> in \<open>[0, 2^56 - 1]\<close>, the bytes that
  \<open>_MaWriteData\<close> leaves in its field, read by \<open>_MaReadData\<close> from offset 0, give \<open>v\<close> again,
  and the offset ends exactly past the encoded bytes.
\<close>

theorem MaWriteData_MaReadData_roundtrip:
  "v < 2 ^ 56 \<Longrightarrow>
   (\<exists>f. SealSearch (MaWriteData Rec name v) name = Some f \<and>
        MaReadData \<lparr>mem = Value f\<rparr> 0 = Inr (v, length (Value f)))"
  using roundtrip_n[OF refl _ _ count_bound, of v] count_facts[of v]
  by (simp add: MaWriteData_def SealSearch_SealSet)

text \<open>The tag of the SEAL chunk, \<open>0x5345414C\<close>, written into \<open>@BLOCK\<close> as \<open>Seal_Matroskasign\<close> does.\<close>

theorem MaWriteData_MaReadData_roundtrip_witness:
  "(0x5345414C :: 64 word) < 2 ^ 56 \<and>
   (\<exists>f. SealSearch (MaWriteData [] ''@BLOCK'' 0x5345414C) ''@BLOCK'' = Some f \<and>
        MaReadData \<lparr>mem = Value f\<rparr> 0 = Inr (0x5345414C, length (Value f)))"
  using MaWriteData_MaReadData_roundtrip[of "0x5345414C" "[]" "''@BLOCK''"] by simp

text \<open>
  Claim C4. When the leading byte declares more bytes than the buffer still holds,
  \<open>_MaReadData\<close> is to return the invalid-value sentinel \<open>(size_t)(-1)\<close>. The code does not:
  on the two bytes \<open>0x20 0x01\<close> the leading byte declares three bytes, the loop stops at
  the end of the buffer, and the value assembled so far, 1, is returned as if it were valid.
\<close>

theorem MaReadData_truncated:
  "MaReadData \<lparr>mem = [CHR 0x20, CHR 0x01]\<rparr> 0 = Inr (1, 2) \<and> (1 :: 64 word) \<noteq> - 1"
  by code_simp

text \<open>
  Claim C5, as stated, fails: 127 is below \<open>2^7\<close> and fits in one byte (\<open>0xFF\<close> reads back
  as 127), yet \<open>_MaWriteData\<close> writes two bytes for it.
\<close>

theorem MaWriteData_not_minimal:
  "(127 :: 64 word) < 2 ^ (7 * 1) \<and> length (MaWriteData_bytes 127) = 2 \<and>
   MaReadData \<lparr>mem = [CHR 0xFF]\<rparr> 0 = Inr (127, 1)"
  by code_simp

text \<open>
  Claim C5, amended. For every value in \<open>[0, 2^56 - 1]\<close>, \<open>_MaWriteData\<close> writes between 1 and
  8 bytes, and it writes at most \<open>k\<close> bytes exactly when \<open>k = 8\<close> or the value is below
  \<open>2^(7k) - 1\<close>: the count is the least \<open>k\<close> whose \<open>7k\<close> payload bits hold the value without
  being all ones (8 when there is none), so \<open>2^(7k) - 1\<close> itself takes \<open>k + 1\<close> bytes.
\<close>

theorem MaWriteData_length_least:
  assumes "v < 2 ^ 56"
  shows "1 \<le> length (MaWriteData_bytes v) \<and> length (MaWriteData_bytes v) \<le> 8 \<and>
    (\<forall>k. 1 \<le> k \<and> k \<le> 8 \<longrightarrow>
       (length (MaWriteData_bytes v) \<le> k) = (k = 8 \<or> unat v < 2 ^ (7 * k) - 1))"
proof -
  define n where "n = MaWriteData_count 1 127 v"
  have f: "1 \<le> n" "n \<le> 8" "n < 8 \<longrightarrow> unat v < 2 ^ (7 * n) - 1"
    "1 < n \<longrightarrow> 2 ^ (7 * (n - 1)) - 1 \<le> unat v"
    using count_facts[of v] by (simp_all add: n_def)
  have len: "length (MaWriteData_bytes v) = n"
    using roundtrip_n[OF refl _ _ count_bound[OF assms]] f by (simp add: n_def)
  have "(n \<le> k) = (k = 8 \<or> unat v < 2 ^ (7 * k) - 1)" if k: "1 \<le> k" "k \<le> 8" for k
  proof (cases "n \<le> k")
    case True
    show ?thesis
    proof (cases "k = 8")
      case False
      then have "n < 8" using True k by simp
      then have "unat v < 2 ^ (7 * n) - 1" using f by simp
      moreover have "(2::nat) ^ (7 * n) \<le> 2 ^ (7 * k)" using True by (intro power_increasing) auto
      ultimately have "unat v < 2 ^ (7 * k) - 1" by arith
      then show ?thesis using True by simp
    qed (use True in simp)
  next
    case False
    then have "k \<le> n - 1" "1 < n" using k by auto
    then have "(2::nat) ^ (7 * k) \<le> 2 ^ (7 * (n - 1))" by (intro power_increasing) auto
    moreover have "2 ^ (7 * (n - 1)) - 1 \<le> unat v" using f \<open>1 < n\<close> by simp
    ultimately have "\<not> unat v < 2 ^ (7 * k) - 1" by arith
    then show ?thesis using False k f by simp
  qed
  with f len show ?thesis by simp
qed

theorem MaWriteData_length_least_witness:
  "(127 :: 64 word) < 2 ^ 56 \<and> length (MaWriteData_bytes 127) = 2"
proof -
  have a: "(127 :: 64 word) < 2 ^ 56" by simp
  have "(length (MaWriteData_bytes 127) \<le> 1) = (1 = (8::nat) \<or> unat (127 :: 64 word) < 2 ^ (7 * 1) - 1)"
    "(length (MaWriteData_bytes 127) \<le> 2) = (2 = (8::nat) \<or> unat (127 :: 64 word) < 2 ^ (7 * 2) - 1)"
    using MaWriteData_length_least[OF a] by simp_all
  then have "length (MaWriteData_bytes 127) = 2" by simp
  with a show ?thesis by simp
qed

section \<open>Running the models on concrete buffers\<close>

text \<open>
  The models are evaluated by rewriting with their defining equations. The congruence
  rules make the simplifier decide a test, or reach the result of a step, before it looks
  at what follows, so a run is followed in the order of the code.
\<close>

lemma bindE_weak_cong: "m = m' \<Longrightarrow> bindE m f = bindE m' f"
  by simp

lemma bindE_Inr: "bindE (Inr x) f = f x"
  by (simp add: bindE_def)

lemma bindE_Inl: "bindE (Inl e) f = Inl e"
  by (simp add: bindE_def)

lemmas eval_congs = if_weak_cong sum.case_cong_weak option.case_cong_weak prod.case_cong_weak
  step.case_cong_weak list.case_cong_weak bindE_weak_cong

lemmas parse_eval = SealParse_def SealParse_loop.simps SealParse_body_def SealParse_state0_def
  SealParse_state1_def SealParse_state2_def SealParse_state3_def SealParse_start_def
  SealParse_alnum.simps SealParse_value.simps SealParse_close.simps SealParse_sig_def
  bindE_Inr bindE_Inl rd_def wr_def memrd_def memcmp_eq_def u32_def u32_sub_def
  isdigit_def isupper_def islower_def isalpha_def isalnum_def isxdigit_def isspace_def strchr_def
  Let_def

lemmas store_eval = SealSearch_def SealDel_def SealSetTextLen_def SealGetText_def SealSetIindex_def
  SealGetIindex_def SealCopy2_def SealPut_def size_t_bytes_def bytes_size_t_def char_of_eq_iff

lemmas codec_eval = SealStrDecode_def SealStrDecode_loop.simps SealXmlDecode_def
  SealXmlDecode_loop.simps SealXmlDecode_body_def SealXmlDecode_hex.simps SealXmlDecode_dec.simps
  SealXmlDecode_emit_def byte_of_def entities_def

lemmas encode_eval = SealStrEncode_def SealStrEncode_count.simps SealStrEncode_copy.simps
  size_dec_def

lemmas walk_eval = Matroskawalk_def Matroskawalk_loop.simps Matroskawalk_chunk.simps
  Matroskawalk_retain_def Matroskawalk_stops_def MaReadData_def MaReadData_scan.simps
  MaReadData_loop.simps memsize_def

lemmas walk_spec_eval = Matroskawalk_chunks.simps Matroskawalk_header_def Matroskawalk_end_def
  spec_records.simps spec_thread_forward_def spec_threaded_def
  MaReadData_def MaReadData_scan.simps MaReadData_loop.simps memsize_def

section \<open>Properties of the record parser and of the entity decoder\<close>

text \<open>
  Claim C1. \<open>SealParse\<close> is never to read \<open>Text\<close> at an index at or past \<open>TextLen\<close>. The code
  does: on the ten bytes \<^verbatim>\<open><seal abcd\<close> the scan of the attribute name stops at \<open>i = TextLen\<close>,
  and the test \<^verbatim>\<open>if (Text[i]=='=')\<close> that follows reads \<open>Text[10]\<close>. With a buffer of exactly
  \<open>TextLen\<close> bytes the model reaches the out-of-range branch.
\<close>

theorem SealParse_reads_past_TextLen:
  "SealParse 10 (Some ''<seal abcd'') 0 [] = Inl OutOfBounds"
  by (simp add: parse_eval cong: eval_congs)

text \<open>
  Claim C10. For a \<open>NULL\<close> buffer, and for every buffer length below 10, \<open>SealParse\<close>
  returns no record, whatever the bytes, the offset and the context are.
\<close>

theorem SealParse_short_or_null:
  "Text = None \<or> TextLen < 10 \<Longrightarrow> SealParse TextLen Text Offset Args = Inr []"
  by (auto simp add: SealParse_def split: option.splits)

text \<open>Nine bytes that begin a record, and a \<open>NULL\<close> buffer said to hold 100 bytes.\<close>

theorem SealParse_short_or_null_witness:
  "(9 :: nat) < 10 \<and> SealParse 9 (Some ''<seal a=1'') 0 [] = Inr [] \<and>
   SealParse 100 None 0 [] = Inr []"
  using SealParse_short_or_null[of "Some ''<seal a=1''" 9 0 "[]"]
    SealParse_short_or_null[of None 100 0 "[]"]
  by simp

text \<open>
  Claim C7. A numeric entity above \<open>0xFF\<close> is to decode to its big-endian bytes and nothing
  else. The code writes the big-endian bytes, but each branch ends in \<open>j++\<close> and the loop
  adds its own \<open>j++\<close> (and \<open>i++\<close> after the \<open>i++\<close> that skips the semicolon): the value
  \<^verbatim>\<open>&#300;\<close> decodes to three bytes, \<open>0x01 0x2C\<close> and the stale byte \<open>3\<close> of the input.
\<close>

theorem SealXmlDecode_numeric_entity_extra_byte:
  "SealXmlDecode (Some \<lparr>Type = CHR ''c'', Field = ''info'', Value = ''&#300;''\<rparr>) =
     Inr (Some \<lparr>Type = CHR ''c'', Field = ''info'', Value = [CHR 0x01, CHR 0x2C, CHR ''3'']\<rparr>)"
  by (simp add: parse_eval store_eval codec_eval cong: eval_congs)

text \<open>
  Claim C8. The second buffer of \<open>SealParseTest\<close>, the record in \<^verbatim>\<open><xmp:seal>\<close> form with
  \<^verbatim>\<open>&quot;\<close> quoting, is to give \<open>info\<close> the 14 bytes \<^verbatim>\<open>Yeah&AbbDcc\<close>, \<open>0x09\<close>, \<^verbatim>\<open>dd\<close>. The code
  stores 14 other bytes: after each of the three numeric entities one byte of the input
  is skipped and one stale byte is left in the output, which gives \<^verbatim>\<open>Yeah&AmbD&c\<close>, \<open>0x09\<close>,
  \<^verbatim>\<open>5d\<close>.
\<close>

theorem SealParse_xmp_info:
  "bindE (SealParse 188 (Some ''<xmp:seal>seal=1 b=&quot;F~S,s~f&quot; info=&quot;Yeah&amp;&#65;bb&#x44;cc&#x09;dd&quot; d=&quot;hackerfactor.com&quot; s=&quot;TDoJi+rjP2N8863kZk0KfJdvUf6isS0GYx14Cl3/fwp&quot;</xmp:seal>'') 0 [])
     (\<lambda>Rec. Inr (map_option Value (SealSearch Rec ''info''))) =
   Inr (Some (''Yeah&AmbD&c'' @ [CHR 0x09] @ ''5d''))"
  by (simp add: parse_eval store_eval codec_eval cong: eval_congs)

section \<open>Properties of the walk\<close>



subsection \<open>\<open>SealParse\<close> on a buffer that has a byte after its \<open>TextLen\<close>\<close>































subsection \<open>The loop of the walk and the walk of the specification\<close>

text \<open>
  The loops of \<open>_Matroskawalk\<close> are the functions of the specification: what is kept of a
  record, the records of a SEAL chunk, and the chunks of the file.
\<close>

lemma Matroskawalk_retain_thread: "Matroskawalk_retain Args Rec = spec_thread_forward Args Rec"
  by (simp add: Matroskawalk_retain_def spec_thread_forward_def spec_threaded_def)




text \<open>The fields of the context after a record, and what the walk keeps of a context.\<close>

lemma SealSearch_SealSet_other:
  "name' \<noteq> name \<Longrightarrow> SealSearch (SealSet vf t name v) name' = SealSearch vf name'"
  by (induction vf) (simp_all add: SealSearch_def)

lemma SealSearch_Field: "SealSearch vf name = Some x \<Longrightarrow> Field x = name"
  by (auto simp add: SealSearch_def find_Some_iff)

lemma SealCopy2_lookup:
  "SealSearch (SealCopy2 A n R n) name =
     (if name = n then (case SealSearch R n of None \<Rightarrow> SealSearch A n | Some x \<Rightarrow> Some x)
      else SealSearch A name)"
proof (cases "SealSearch R n")
  case None
  then show ?thesis by (simp add: SealCopy2_def)
next
  case (Some x)
  then have "Field x = n" by (rule SealSearch_Field)
  then have "\<lparr>Type = Type x, Field = n, Value = Value x\<rparr> = x" by (cases x) simp
  then show ?thesis using Some by (simp add: SealCopy2_def SealSearch_SealSet SealSearch_SealSet_other)
qed

lemma foldl_SealCopy2_lookup:
  "SealSearch (foldl (\<lambda>A n. SealCopy2 A n R n) A ns) name =
     (if name \<in> set ns then (case SealSearch R name of None \<Rightarrow> SealSearch A name | Some x \<Rightarrow> Some x)
      else SealSearch A name)"
proof (induction ns arbitrary: A)
  case Nil
  then show ?case by simp
next
  case (Cons n ns)
  show ?case by (simp add: Cons.IH SealCopy2_lookup split: option.splits)
qed

lemma spec_thread_forward_lookup:
  "SealSearch (spec_thread_forward Args Rec) name =
     (if name \<in> set spec_threaded then (case SealSearch Rec name of None \<Rightarrow> SealSearch Args name | Some x \<Rightarrow> Some x)
      else SealSearch Args name)"
  unfolding spec_thread_forward_def by (rule foldl_SealCopy2_lookup)

















text \<open>
  What a verified record leaves in the context, field by field: the six threaded fields
  of the record, where it has them, and everything else as the context had it.
\<close>

lemma Matroskawalk_retain_lookup:
  "SealSearch (Matroskawalk_retain Args Rec) name =
     (if name \<in> set spec_threaded
      then (case SealSearch Rec name of None \<Rightarrow> SealSearch Args name | Some x \<Rightarrow> Some x)
      else SealSearch Args name)"
  unfolding Matroskawalk_retain_thread by (rule spec_thread_forward_lookup)



text \<open>
  The walk that stops before the end of the file is the case of this claim. Where a SEAL
  chunk ends with the file, no tag and no length is invalid, and the read of \<open>SealParse\<close>
  at \<open>Text[TextLen]\<close> (claim C1) is a read of the byte after the file.
\<close>

lemma Matroskawalk_last_chunk_reads_past:
  "Matroskawalk SealVerify Args
     \<lparr>mem = [CHR 0x08, CHR ''S'', CHR ''E'', CHR ''A'', CHR ''L'', CHR 0x8A] @ ''<seal abcd''\<rparr> =
     Inl OutOfBounds \<and>
   Matroskawalk_end
     \<lparr>mem = [CHR 0x08, CHR ''S'', CHR ''E'', CHR ''A'', CHR ''L'', CHR 0x8A] @ ''<seal abcd''\<rparr> 0 =
     memsize \<lparr>mem = [CHR 0x08, CHR ''S'', CHR ''E'', CHR ''A'', CHR ''L'', CHR 0x8A] @ ''<seal abcd''\<rparr>"
  by (simp add: walk_eval walk_spec_eval parse_eval cong: eval_congs)

section \<open>Properties of the escape codec\<close>

text \<open>
  What the encoder is to produce: a backslash before every byte that \<open>strchr\<close> finds in
  \<^verbatim>\<open>"'\""\<close> (the two quotes, and NUL), and the number of such bytes.
\<close>

definition escaped :: "byte list \<Rightarrow> byte list" where
  "escaped w = concat (map (\<lambda>c. if strchr [CHR 0x27, CHR 0x22] c then [CHR 0x5C, c] else [c]) w)"

definition quotes :: "byte list \<Rightarrow> nat" where
  "quotes w = length (filter (strchr [CHR 0x27, CHR 0x22]) w)"

lemma escaped_simps:
  "escaped [] = []"
  "escaped (c # w) = (if strchr [CHR 0x27, CHR 0x22] c then [CHR 0x5C, c] else [c]) @ escaped w"
  "escaped (u @ w) = escaped u @ escaped w"
  by (simp_all add: escaped_def)

lemma quotes_simps:
  "quotes [] = 0"
  "quotes (c # w) = (if strchr [CHR 0x27, CHR 0x22] c then 1 else 0) + quotes w"
  "quotes (u @ w) = quotes u + quotes w"
  by (simp_all add: quotes_def)

lemma length_escaped: "length (escaped w) = length w + quotes w"
  by (induction w) (simp_all add: escaped_simps quotes_simps)

lemma escaped_no_quotes: "quotes w = 0 \<Longrightarrow> escaped w = w"
  by (induction w) (simp_all add: escaped_simps quotes_simps split: if_splits)

lemma SealStrEncode_count_gen:
  "i + d = length v \<Longrightarrow>
   SealStrEncode_count (length v) v i j = Inr (length v, j + d + quotes (drop i v))"
proof (induction d arbitrary: i j)
  case 0
  then show ?case by (subst SealStrEncode_count.simps) (simp add: quotes_simps)
next
  case (Suc d)
  then have lt: "i < length v" by simp
  have dr: "drop i v = v ! i # drop (i + 1) v" using lt by (simp add: Cons_nth_drop_Suc)
  have "SealStrEncode_count (length v) v (i + 1)
          ((if strchr [CHR 0x27, CHR 0x22] (v ! i) then j + 1 else j) + 1) =
        Inr (length v, (if strchr [CHR 0x27, CHR 0x22] (v ! i) then j + 1 else j) + 1
               + d + quotes (drop (i + 1) v))"
    using Suc.prems by (intro Suc.IH) simp
  then show ?case
    using lt by (subst SealStrEncode_count.simps) (simp add: rd_def dr quotes_simps)
qed

lemma SealStrEncode_count_0:
  "SealStrEncode_count (length v) v 0 0 = Inr (length v, length v + quotes v)"
  using SealStrEncode_count_gen[of 0 "length v" v 0] by simp

lemma size_dec_pos: "0 < k \<Longrightarrow> k < 2 ^ 64 \<Longrightarrow> size_dec k = k - 1"
proof -
  assume k: "0 < k" "k < 2 ^ 64"
  then have "k + 2 ^ 64 - 1 = (k - 1) + 1 * 2 ^ 64" by simp
  then have "size_dec k = (k - 1) mod 2 ^ 64"
    unfolding size_dec_def by (simp only: mod_mult_self1)
  then show ?thesis using k by simp
qed

lemma size_dec_0: "size_dec 0 = 2 ^ 64 - 1"
  by (simp add: size_dec_def)

text \<open>
  The copy from the right: \<open>k\<close> bytes of the value are still to be moved and \<open>m\<close> is where
  they end in the grown buffer.
\<close>

lemma SealStrEncode_copy_gen:
  assumes "k \<le> length v" "m = k + quotes (take k v)"
    "length B = length v + quotes v" "length v + quotes v < 2 ^ 64"
    "take k B = take k v" "drop m B = escaped (drop k v)"
  shows "SealStrEncode_copy B (size_dec k) (size_dec m) = Inr (escaped v)"
  using assms
proof (induction k arbitrary: m B)
  case 0
  then show ?case
    by (subst SealStrEncode_copy.simps) (simp add: quotes_simps size_dec_0)
next
  case (Suc k)
  let ?c = "v ! k"
  have kv: "k < length v" using Suc.prems(1) by simp
  have tk: "take (Suc k) v = take k v @ [?c]" using kv by (simp add: take_Suc_conv_app_nth)
  have dk: "drop k v = ?c # drop (Suc k) v" using kv by (simp add: Cons_nth_drop_Suc)
  have qle: "quotes (take (Suc k) v) \<le> quotes v"
    by (metis append_take_drop_id le_add1 quotes_simps(3))
  have mle: "m \<le> length v + quotes v" using Suc.prems(1,2) qle by simp
  have mpos: "0 < m" "m < 2 ^ 64" using Suc.prems(2,4) mle by simp_all
  have kpos: "0 < Suc k" "Suc k < 2 ^ 64" using Suc.prems(1,4) by simp_all
  have di: "size_dec (Suc k) = k" using size_dec_pos[OF kpos] by simp
  have dj: "size_dec m = m - 1" using size_dec_pos[OF mpos] .
  have Bk: "B ! k = ?c"
    using Suc.prems(5) kv by (metis lessI nth_take)
  show ?case
  proof (cases "quotes (take (Suc k) v) = 0")
    case True
    then have "m = Suc k" using Suc.prems(2) by simp
    then have "B = take (Suc k) v @ escaped (drop (Suc k) v)"
      using Suc.prems(5,6) by (metis append_take_drop_id)
    also have "\<dots> = escaped (take (Suc k) v) @ escaped (drop (Suc k) v)"
      using True by (simp add: escaped_no_quotes)
    also have "\<dots> = escaped v"
      by (simp add: escaped_simps(3)[symmetric])
    finally have "B = escaped v" .
    then show ?thesis
      using \<open>m = Suc k\<close> di by (subst SealStrEncode_copy.simps) simp
  next
    case False
    then have lt: "k < m - 1" using Suc.prems(2) by simp
    have jB: "m - 1 < length B" using mle mpos Suc.prems(3) by simp
    show ?thesis
    proof (cases "strchr [CHR 0x27, CHR 0x22] ?c")
      case q: True
      then have m2: "m = k + quotes (take k v) + 2" using Suc.prems(2) by (simp add: tk quotes_simps)
      define B2 where "B2 = B[m - 1 := ?c, m - 2 := CHR 0x5C]"
      have dj2: "size_dec (m - Suc 0) = m - 2"
        using size_dec_pos[of "m - 1"] m2 mpos by simp
      have IH: "SealStrEncode_copy B2 (size_dec k) (size_dec (m - 2)) = Inr (escaped v)"
      proof (rule Suc.IH)
        show "k \<le> length v" using kv by simp
        show "m - 2 = k + quotes (take k v)" using m2 by simp
        show "length B2 = length v + quotes v" using Suc.prems(3) by (simp add: B2_def)
        show "length v + quotes v < 2 ^ 64" by fact
        have "take k B2 = take k B" using m2 by (simp add: B2_def)
        also have "\<dots> = take k v" using Suc.prems(5) by (metis le_add2 plus_1_eq_Suc take_take min.absorb1 le_SucI order_refl)
        finally show "take k B2 = take k v" .
        have "drop (m - 2) B2 = CHR 0x5C # ?c # drop m B"
          unfolding B2_def using jB m2
          by (simp add: drop_update_cancel Cons_nth_drop_Suc[symmetric] upd_conv_take_nth_drop min_def)
        then show "drop (m - 2) B2 = escaped (drop k v)"
          using q Suc.prems(6) by (simp add: dk escaped_simps)
      qed
      have kB: "k < length B" "m - 2 < length B" using lt jB by simp_all
      show ?thesis
        unfolding di dj
        using lt jB q Bk IH kB
        by (subst SealStrEncode_copy.simps)
           (simp add: dj2 rd_def wr_def B2_def)
    next
      case nq: False
      then have m1: "m = k + quotes (take k v) + 1" using Suc.prems(2) by (simp add: tk quotes_simps)
      define B1 where "B1 = B[m - 1 := ?c]"
      have IH: "SealStrEncode_copy B1 (size_dec k) (size_dec (m - 1)) = Inr (escaped v)"
      proof (rule Suc.IH)
        show "k \<le> length v" using kv by simp
        show "m - 1 = k + quotes (take k v)" using m1 by simp
        show "length B1 = length v + quotes v" using Suc.prems(3) by (simp add: B1_def)
        show "length v + quotes v < 2 ^ 64" by fact
        have "take k B1 = take k B" using m1 by (simp add: B1_def)
        also have "\<dots> = take k v" using Suc.prems(5) by (metis le_add2 plus_1_eq_Suc take_take min.absorb1 le_SucI order_refl)
        finally show "take k B1 = take k v" .
        have "drop (m - 1) B1 = ?c # drop m B"
          unfolding B1_def using jB m1
          by (simp add: upd_conv_take_nth_drop min_def)
        then show "drop (m - 1) B1 = escaped (drop k v)"
          using nq Suc.prems(6) by (simp add: dk escaped_simps)
      qed
      have kB: "k < length B" using lt jB by simp
      show ?thesis
        unfolding di dj
        using lt jB nq Bk IH kB
        by (subst SealStrEncode_copy.simps)
           (simp add: rd_def wr_def B1_def)
    qed
  qed
qed


lemma SealStrEncode_escaped:
  assumes "length (Value d) + quotes (Value d) < 2 ^ 64"
  shows "SealStrEncode (Some d) = Inr (Some (d\<lparr>Value := escaped (Value d)\<rparr>))"
proof (cases "Value d = []")
  case True
  then show ?thesis by (simp add: SealStrEncode_def escaped_simps)
next
  case False
  let ?v = "Value d"
  show ?thesis
  proof (cases "quotes ?v = 0")
    case True
    then show ?thesis
      using False by (simp add: SealStrEncode_def SealStrEncode_count_0 escaped_no_quotes)
  next
    case q: False
    have n: "0 < length ?v" "length ?v < 2 ^ 64" using False assms by simp_all
    have "SealStrEncode_copy (?v @ replicate (quotes ?v) (CHR 0x00)) (size_dec (length ?v))
            (size_dec (length ?v + quotes ?v)) = Inr (escaped ?v)"
      by (rule SealStrEncode_copy_gen) (use assms in \<open>simp_all add: escaped_simps\<close>)
    then show ?thesis
      using False q by (simp add: SealStrEncode_def SealStrEncode_count_0)
  qed
qed

lemma SealStrDecode_loop_gen:
  assumes "CHR 0x5C \<notin> set v" "j + d = length v" "i = length (escaped (take j v))"
    "length B = length (escaped v)" "take j B = take j v" "drop i B = drop i (escaped v)"
  shows "\<exists>B'. SealStrDecode_loop (length (escaped v)) B i j = Inr (B', length (escaped v), length v)
            \<and> take (length v) B' = v"
  using assms(2-)
proof (induction d arbitrary: i j B)
  case 0
  then have "j = length v" "i = length (escaped v)" by simp_all
  then show ?case
    using 0 by (subst SealStrDecode_loop.simps) simp
next
  case (Suc d)
  let ?N = "length (escaped v)"
  let ?c = "v ! j"
  have jv: "j < length v" using Suc.prems(1) by simp
  have tj: "take (Suc j) v = take j v @ [?c]" using jv by (simp add: take_Suc_conv_app_nth)
  have dj: "drop j v = ?c # drop (Suc j) v" using jv by (simp add: Cons_nth_drop_Suc)
  have split: "escaped v = escaped (take j v) @ escaped (drop j v)"
    by (simp add: escaped_simps(3)[symmetric])
  have dB: "drop i B = escaped (drop j v)"
    using Suc.prems(5) split Suc.prems(2) by simp
  have ji: "j \<le> i" using Suc.prems(2) jv by (simp add: length_escaped)
  have nb: "?c \<noteq> CHR 0x5C" using assms(1) jv by (metis nth_mem)
  have jB: "j < length B" using Suc.prems(3) jv by (simp add: length_escaped)
  show ?case
  proof (cases "strchr [CHR 0x27, CHR 0x22] ?c")
    case q: True
    then have dB2: "drop i B = CHR 0x5C # ?c # escaped (drop (Suc j) v)"
      using dB by (simp add: dj escaped_simps)
    then have iN: "i + 1 < length B"
      by (metis One_nat_def Suc_eq_plus1 drop_eq_Nil2 length_Cons length_drop
          less_diff_conv list.distinct(1) not_less_eq not_less zero_less_Suc add.commute)
    have r0: "B ! i = CHR 0x5C" using dB2 iN
      by (metis Cons_nth_drop_Suc add_lessD1 list.inject)
    have r1: "B ! (i + 1) = ?c" using dB2 iN
      by (metis Cons_nth_drop_Suc Suc_eq_plus1 add_lessD1 list.inject)
    have d2: "drop (i + 2) B = escaped (drop (Suc j) v)"
      using dB2 by (metis (no_types, opaque_lifting) Suc_1 add_Suc_right add_0 drop_Suc drop_drop list.sel(3) tl_drop add.commute plus_1_eq_Suc)
    have "\<exists>B'. SealStrDecode_loop ?N (B[j := ?c]) (i + 1 + 1) (j + 1) = Inr (B', ?N, length v)
            \<and> take (length v) B' = v"
    proof (rule Suc.IH)
      show "j + 1 + d = length v" using Suc.prems(1) by simp
      show "i + 1 + 1 = length (escaped (take (j + 1) v))"
        using Suc.prems(2) q by (simp add: tj escaped_simps)
      show "length (B[j := ?c]) = ?N" using Suc.prems(3) by simp
      show "take (j + 1) (B[j := ?c]) = take (j + 1) v"
        using Suc.prems(4) jB by (simp add: tj take_Suc_conv_app_nth)
      have "drop (i + 1 + 1) (B[j := ?c]) = drop (i + 2) B" using ji by simp
      also have "\<dots> = escaped (drop (Suc j) v)" by (rule d2)
      also have "\<dots> = drop (i + 1 + 1) (escaped v)"
        using Suc.prems(2) q by (subst split) (simp add: dj escaped_simps)
      finally show "drop (i + 1 + 1) (B[j := ?c]) = drop (i + 1 + 1) (escaped v)" .
    qed
    then show ?thesis
      using iN r0 r1 ji jB Suc.prems(3)
      by (subst SealStrDecode_loop.simps) (simp add: rd_def wr_def Let_def)
  next
    case nq: False
    then have dB2: "drop i B = ?c # escaped (drop (Suc j) v)"
      using dB by (simp add: dj escaped_simps)
    then have iN: "i < length B"
      by (metis drop_eq_Nil2 list.distinct(1) not_less)
    have r0: "B ! i = ?c" using dB2 iN
      by (metis Cons_nth_drop_Suc list.inject)
    have d2: "drop (i + 1) B = escaped (drop (Suc j) v)"
      using dB2 by (metis Suc_eq_plus1 drop_Suc list.sel(3) tl_drop)
    have "\<exists>B'. SealStrDecode_loop ?N (B[j := ?c]) (i + 1) (j + 1) = Inr (B', ?N, length v)
            \<and> take (length v) B' = v"
    proof (rule Suc.IH)
      show "j + 1 + d = length v" using Suc.prems(1) by simp
      show "i + 1 = length (escaped (take (j + 1) v))"
        using Suc.prems(2) nq by (simp add: tj escaped_simps)
      show "length (B[j := ?c]) = ?N" using Suc.prems(3) by simp
      show "take (j + 1) (B[j := ?c]) = take (j + 1) v"
        using Suc.prems(4) jB by (simp add: tj take_Suc_conv_app_nth)
      have "drop (i + 1) (B[j := ?c]) = drop (i + 1) B" using ji by simp
      also have "\<dots> = escaped (drop (Suc j) v)" by (rule d2)
      also have "\<dots> = drop (i + 1) (escaped v)"
        using Suc.prems(2) nq by (subst split) (simp add: dj escaped_simps)
      finally show "drop (i + 1) (B[j := ?c]) = drop (i + 1) (escaped v)" .
    qed
    moreover have "i = j \<Longrightarrow> B[j := ?c] = B" using r0 by (metis list_update_id)
    ultimately show ?thesis
      using iN r0 nb ji jB Suc.prems(3)
      by (subst SealStrDecode_loop.simps) (auto simp add: rd_def wr_def Let_def)
  qed
qed

lemma SealStrDecode_escaped:
  assumes "CHR 0x5C \<notin> set (Value d)"
  shows "SealStrDecode (Some (d\<lparr>Value := escaped (Value d)\<rparr>)) = Inr (Some d)"
proof (cases "Value d = []")
  case True
  then show ?thesis by (simp add: SealStrDecode_def escaped_simps)
next
  case False
  let ?v = "Value d"
  have ne: "escaped ?v \<noteq> []" using False by (cases ?v) (simp_all add: escaped_simps)
  obtain B' where "SealStrDecode_loop (length (escaped ?v)) (escaped ?v) 0 0
                     = Inr (B', length (escaped ?v), length ?v)" "take (length ?v) B' = ?v"
    using SealStrDecode_loop_gen[OF assms, of 0 "length ?v" 0 "escaped ?v"]
    by (auto simp add: escaped_simps)
  then show ?thesis using ne by (simp add: SealStrDecode_def)
qed

text \<open>
  Claim C6, amended. For every value that holds no backslash (NUL bytes or not), of a
  length whose double is a \<open>size_t\<close>, \<open>SealStrEncode\<close> and then \<open>SealStrDecode\<close> give the
  field back with the bytes and the length it had.
\<close>

theorem SealStrEncode_SealStrDecode:
  assumes "CHR 0x5C \<notin> set (Value d)" "2 * length (Value d) < 2 ^ 64"
  shows "bindE (SealStrEncode (Some d)) SealStrDecode = Inr (Some d)"
proof -
  have "quotes (Value d) \<le> length (Value d)" by (simp add: quotes_def)
  then have "length (Value d) + quotes (Value d) < 2 ^ 64" using assms(2) by simp
  then show ?thesis
    using assms(1) by (simp add: SealStrEncode_escaped SealStrDecode_escaped bindE_def)
qed

theorem SealStrEncode_SealStrDecode_witness:
  "CHR 0x5C \<notin> set [CHR ''a'', CHR 0x27, CHR ''b'', CHR 0x22] \<and>
   2 * length [CHR ''a'', CHR 0x27, CHR ''b'', CHR 0x22] < (2 :: nat) ^ 64 \<and>
   bindE (SealStrEncode (Some \<lparr>Type = CHR ''c'', Field = ''info'',
                                Value = [CHR ''a'', CHR 0x27, CHR ''b'', CHR 0x22]\<rparr>)) SealStrDecode =
     Inr (Some \<lparr>Type = CHR ''c'', Field = ''info'', Value = [CHR ''a'', CHR 0x27, CHR ''b'', CHR 0x22]\<rparr>)"
  using SealStrEncode_SealStrDecode[of "\<lparr>Type = CHR ''c'', Field = ''info'',
                                Value = [CHR ''a'', CHR 0x27, CHR ''b'', CHR 0x22]\<rparr>"]
  by simp

text \<open>
  Claim C6, as stated, fails: the encoder escapes the quotes only, so a backslash in the
  value is taken by the decoder for an escape. The two bytes backslash, \<open>a\<close> hold no NUL
  and come back as the one byte \<open>a\<close>.
\<close>

theorem SealStrEncode_SealStrDecode_backslash:
  "CHR 0x00 \<notin> set [CHR 0x5C, CHR ''a''] \<and>
   bindE (SealStrEncode (Some \<lparr>Type = CHR ''c'', Field = ''info'', Value = [CHR 0x5C, CHR ''a'']\<rparr>))
     SealStrDecode =
     Inr (Some \<lparr>Type = CHR ''c'', Field = ''info'', Value = ''a''\<rparr>)"
  by (simp add: encode_eval codec_eval parse_eval cong: eval_congs)

section \<open>An abandoned attempt before a record\<close>

text \<open>
  Claim C9 fails on the code. In \<^verbatim>\<open><seal a= x <seal b=1 />\<close> the attempt \<^verbatim>\<open><seal a=\<close> has the
  empty value \<open>a\<close>; then the name \<open>x\<close> is not followed by \<^verbatim>\<open>=\<close>, and the code takes
  \<^verbatim>\<open>else { i--; State=0; } // bad attribute\<close>: it goes back to state 0 without \<open>IsBad\<close>, so
  the reset at the top of the loop (\<^verbatim>\<open>if (IsBad) { if (Rec) { SealFree(Rec); Rec=NULL; } ... }\<close>)
  does not run and the partial record is not freed. The fields of the valid record are
  added to it: the result holds the field \<open>a\<close> of the abandoned attempt next to the field
  \<open>b\<close>, where the valid record on its own gives \<open>b\<close> alone. Every other path of the loop
  that gives an attempt up sets \<open>IsBad\<close>.
\<close>

theorem SealParse_bad_attribute_keeps_record:
  "bindE (SealParse 23 (Some ''<seal a= x <seal b=1 />'') 0 [])
     (\<lambda>Rec. Inr (map (\<lambda>f. (Field f, Value f)) Rec)) =
     Inr [(''a'', []), (''b'', ''1''), (''@RecEnd'', size_t_bytes 21)] \<and>
   bindE (SealParse 12 (Some ''<seal b=1 />'') 0 [])
     (\<lambda>Rec. Inr (map (\<lambda>f. (Field f, Value f)) Rec)) =
     Inr [(''b'', ''1''), (''@RecEnd'', size_t_bytes 10)]"
  by (simp add: parse_eval store_eval codec_eval cong: eval_congs)

text \<open>
  The paths that set \<open>IsBad\<close> do discard the attempt. At a \<^verbatim>\<open><\<close> where a name must begin
  (\<^verbatim>\<open>if (Text[i]=='<') { i--; IsBad=true; }\<close>) and at a name that does not begin with a letter
  (\<^verbatim>\<open>if (!isalpha(Text[i])) { IsBad=true; }\<close>) the partial record is freed, and the result is
  the valid record alone.
\<close>

lemma SealParse_bad_start_discards:
  "bindE (SealParse 21 (Some ''<seal a= <seal b=1 />'') 0 [])
     (\<lambda>Rec. Inr (map (\<lambda>f. (Field f, Value f)) Rec)) =
     Inr [(''b'', ''1''), (''@RecEnd'', size_t_bytes 19)] \<and>
   bindE (SealParse 22 (Some ''<seal a=x <seal b=1 />'') 0 [])
     (\<lambda>Rec. Inr (map (\<lambda>f. (Field f, Value f)) Rec)) =
     Inr [(''b'', ''1''), (''@RecEnd'', size_t_bytes 20)] \<and>
   bindE (SealParse 24 (Some ''<seal a= 12 <seal b=1 />'') 0 [])
     (\<lambda>Rec. Inr (map (\<lambda>f. (Field f, Value f)) Rec)) =
     Inr [(''b'', ''1''), (''@RecEnd'', size_t_bytes 22)]"
  by (simp add: parse_eval store_eval codec_eval cong: eval_congs)

text \<open>
  A \<^verbatim>\<open><\<close> straight after \<^verbatim>\<open><seal a=\<close> is another matter: it ends the empty value of \<open>a\<close> and,
  as the byte after a value, it closes the record (\<^verbatim>\<open>else if (strchr("<>/",Text[i])) // done!\<close>;
  section 4.3 of the specification, S3: ``on an explicit close ... advance past the
  remaining bytes up to and including the terminating \<^verbatim>\<open>>\<close> and finish''). That attempt is
  closed, not abandoned, and the record \<open>a\<close> is the result.
\<close>

lemma SealParse_close_after_value:
  "bindE (SealParse 20 (Some ''<seal a=<seal b=1 />'') 0 [])
     (\<lambda>Rec. Inr (map (\<lambda>f. (Field f, Value f)) Rec)) =
     Inr [(''a'', []), (''@RecEnd'', size_t_bytes 20)]"
  by (simp add: parse_eval store_eval codec_eval cong: eval_congs)

end
